theory Spec2Isabelle
  imports Complex_Main "HOL-Library.Product_Lexorder"
begin

section \<open>Python strings\<close>

text \<open>
  A Python \<^verbatim>\<open>str\<close> is a sequence of Unicode code points, and \<^verbatim>\<open>len\<close> counts code
  points. A string is therefore a list of code points, each a natural number; \<open>lit\<close>
  turns a literal of ASCII characters into such a list.
\<close>

type_synonym pystr = "nat list"

definition lit :: "string \<Rightarrow> pystr" where
  "lit s = map of_char s"

text \<open>
  \<^verbatim>\<open>str.isspace\<close> for one code point: the white space of CPython's Unicode database.
  Both the pattern \<^verbatim>\<open>\s\<close> of \<^verbatim>\<open>re\<close> (on a \<^verbatim>\<open>str\<close>) and \<^verbatim>\<open>str.strip()\<close> use it.
\<close>

definition py_isspace :: "nat \<Rightarrow> bool" where
  "py_isspace c =
     ((9 \<le> c \<and> c \<le> 13) \<or> (28 \<le> c \<and> c \<le> 32) \<or> c = 133 \<or> c = 160 \<or> c = 5760 \<or>
      (8192 \<le> c \<and> c \<le> 8202) \<or> c = 8232 \<or> c = 8233 \<or> c = 8239 \<or> c = 8287 \<or>
      c = 12288)"

text \<open>
  \<^verbatim>\<open>str.lower()\<close> on the ASCII range. In \<^verbatim>\<open>normalize_text\<close> it is applied to the result
  of \<^verbatim>\<open>unidecode\<close>, which is an ASCII string; code points from 128 on are left alone
  here and never reach it under \<open>ascii_table\<close>.
\<close>

definition lower_cp :: "nat \<Rightarrow> nat" where
  "lower_cp c = (if 65 \<le> c \<and> c \<le> 90 then c + 32 else c)"

definition py_lower :: "pystr \<Rightarrow> pystr" where
  "py_lower s = map lower_cp s"

text \<open>
  \<^verbatim>\<open>unidecode(text)\<close> of the third-party package unidecode: code point by code point,
  an ASCII code point is kept and any other is replaced by the ASCII string its
  transliteration table gives it (the empty string for a code point it does not know).
  The table is not part of this repository and is the parameter \<open>tbl\<close>;
  \<open>ascii_table\<close> states the package's contract that every replacement is ASCII.
  \<open>unidecode_latin\<close> is the part of the table for the accented letters of Spanish,
  the language of the catalogue this program scrapes.
\<close>

definition unidecode :: "(nat \<Rightarrow> pystr) \<Rightarrow> pystr \<Rightarrow> pystr" where
  "unidecode tbl s = concat (map (\<lambda>c. if c < 128 then [c] else tbl c) s)"

definition ascii_table :: "(nat \<Rightarrow> pystr) \<Rightarrow> bool" where
  "ascii_table tbl = (\<forall>c. list_all (\<lambda>d. d < 128) (tbl c))"

definition unidecode_latin :: "nat \<Rightarrow> pystr" where
  "unidecode_latin c =
     (if c = 160 then lit '' ''
      else if c = 193 then lit ''A'' else if c = 201 then lit ''E''
      else if c = 205 then lit ''I'' else if c = 209 then lit ''N''
      else if c = 211 then lit ''O'' else if c = 218 then lit ''U''
      else if c = 220 then lit ''U''
      else if c = 225 then lit ''a'' else if c = 233 then lit ''e''
      else if c = 237 then lit ''i'' else if c = 241 then lit ''n''
      else if c = 243 then lit ''o'' else if c = 250 then lit ''u''
      else if c = 252 then lit ''u''
      else [])"

text \<open>
  \<^verbatim>\<open>re.sub(r'\s+', ' ', text)\<close>: every maximal run of white space becomes one space.
\<close>

function re_sub_spaces :: "pystr \<Rightarrow> pystr" where
  "re_sub_spaces [] = []"
| "re_sub_spaces (c # cs) =
     (if py_isspace c then 32 # re_sub_spaces (dropWhile py_isspace cs)
      else c # re_sub_spaces cs)"
  by pat_completeness auto
termination
  by (relation "measure length") (auto simp: less_Suc_eq_le length_dropWhile_le)

text \<open>\<^verbatim>\<open>text.strip()\<close>: white space is removed from both ends.\<close>

definition py_strip :: "pystr \<Rightarrow> pystr" where
  "py_strip s = rev (dropWhile py_isspace (rev (dropWhile py_isspace s)))"

section \<open>utils.py: normalisation and edit distance\<close>

text \<open>
  \<^verbatim>\<open>normalize_text(text)\<close>. The guard \<^verbatim>\<open>if not text\<close> holds for \<^verbatim>\<open>None\<close> and for the
  empty string, so the argument is an optional string.
\<close>

definition normalize_text :: "(nat \<Rightarrow> pystr) \<Rightarrow> pystr option \<Rightarrow> pystr" where
  "normalize_text tbl text =
     (case text of
        None \<Rightarrow> []
      | Some t \<Rightarrow>
          if t = [] then []
          else py_strip (re_sub_spaces (py_lower (unidecode tbl t))))"

text \<open>
  \<^verbatim>\<open>levenshtein_distance(str1, str2)\<close>. The table \<^verbatim>\<open>dist\<close> is a list of rows;
  \<open>set2 d i j v\<close> is the assignment \<^verbatim>\<open>dist[i][j] = v\<close>. The three loops of the source are
  the three folds, in the source's order, and \<^verbatim>\<open>dist[-1][-1]\<close> is the last entry of
  the last row. Every index the loops use is within the table. The two guards come
  first and return the length of the other argument as it was passed.
\<close>

definition set2 :: "nat list list \<Rightarrow> nat \<Rightarrow> nat \<Rightarrow> nat \<Rightarrow> nat list list" where
  "set2 d i j v = d[i := (d ! i)[j := v]]"

definition lev_cell :: "pystr \<Rightarrow> pystr \<Rightarrow> nat \<Rightarrow> nat \<Rightarrow> nat list list \<Rightarrow> nat list list" where
  "lev_cell str1 str2 i j d =
     (let cost = (if str1 ! (i - 1) = str2 ! (j - 1) then 0 else 1)
      in set2 d i j
           (min (d ! (i - 1) ! j + 1)
              (min (d ! i ! (j - 1) + 1) (d ! (i - 1) ! (j - 1) + cost))))"

definition lev_table :: "pystr \<Rightarrow> pystr \<Rightarrow> nat list list" where
  "lev_table str1 str2 =
     (let rows = length str1 + 1;
          cols = length str2 + 1;
          dist0 = replicate rows (replicate cols 0);
          dist1 = fold (\<lambda>i d. set2 d i 0 i) [1..<rows] dist0;
          dist2 = fold (\<lambda>j d. set2 d 0 j j) [1..<cols] dist1
      in fold (\<lambda>i d. fold (\<lambda>j d. lev_cell str1 str2 i j d) [1..<cols] d) [1..<rows] dist2)"

definition levenshtein_distance :: "(nat \<Rightarrow> pystr) \<Rightarrow> pystr \<Rightarrow> pystr \<Rightarrow> nat" where
  "levenshtein_distance tbl str1 str2 =
     (if str1 = [] then length str2
      else if str2 = [] then length str1
      else last (last (lev_table (normalize_text tbl (Some str1))
                                 (normalize_text tbl (Some str2)))))"

section \<open>difflib.SequenceMatcher, as utils.py uses it\<close>

text \<open>
  \<^verbatim>\<open>calculate_similarity\<close> calls \<^verbatim>\<open>SequenceMatcher(None, a, b).ratio()\<close> of Python's
  standard library. This section follows CPython's \<^verbatim>\<open>difflib.py\<close> for that call: no
  junk function, \<^verbatim>\<open>autojunk\<close> at its default \<^verbatim>\<open>True\<close>.

  \<^verbatim>\<open>__chain_b\<close>: \<open>b2j\<close> maps each element of \<open>b\<close> to the list of its positions, in
  increasing order (\<open>b2j_append\<close> is one \<^verbatim>\<open>setdefault\<close> and \<^verbatim>\<open>append\<close>); when \<open>b\<close> has 200 elements or more, the elements that occur more than
  \<^verbatim>\<open>n // 100 + 1\<close> times ("popular") are removed from the map.
\<close>

type_synonym match = "nat \<times> nat \<times> nat"

definition b2j_append :: "nat \<times> nat \<Rightarrow> (nat \<rightharpoonup> nat list) \<Rightarrow> (nat \<rightharpoonup> nat list)" where
  "b2j_append p b2j =
     (case p of
        (i, elt) \<Rightarrow> b2j(elt \<mapsto> (case b2j elt of None \<Rightarrow> [] | Some indices \<Rightarrow> indices) @ [i]))"

definition chain_b :: "pystr \<Rightarrow> (nat \<rightharpoonup> nat list)" where
  "chain_b b =
     (let b2j = fold b2j_append (enumerate 0 b) Map.empty;
          n = length b
      in if 200 \<le> n
         then (\<lambda>elt. case b2j elt of
                        None \<Rightarrow> None
                      | Some idxs \<Rightarrow> if n div 100 + 1 < length idxs then None else Some idxs)
         else b2j)"

text \<open>
  The set \<^verbatim>\<open>bjunk\<close> is empty, since no junk function is given.
\<close>

definition isbjunk :: "nat \<Rightarrow> bool" where
  "isbjunk elt = False"

text \<open>
  The main loop of \<^verbatim>\<open>find_longest_match\<close>. \<open>flm_row\<close> is the inner loop over the
  positions \<open>j\<close> of \<^verbatim>\<open>a[i]\<close> in \<open>b\<close>, with its \<^verbatim>\<open>continue\<close> and its \<^verbatim>\<open>break\<close>;
  \<^verbatim>\<open>j2len.get(j-1, 0)\<close> is 0 for \<open>j = 0\<close>, where the key would be \<open>-1\<close>. The source's
  \<^verbatim>\<open>i-k+1\<close> is \<open>i + 1 - k\<close> here; \<open>k\<close> never exceeds \<open>i + 1\<close> (lemma
  \<open>flm_row_side_a\<close>), so the subtraction on natural numbers is the one on integers.
  \<open>flm_rows\<close> is the outer loop over \<^verbatim>\<open>range(alo, ahi)\<close>.
\<close>

fun flm_row ::
  "nat \<Rightarrow> nat \<Rightarrow> nat \<Rightarrow> (nat \<rightharpoonup> nat) \<Rightarrow> nat list \<Rightarrow> match \<times> (nat \<rightharpoonup> nat) \<Rightarrow> match \<times> (nat \<rightharpoonup> nat)" where
  "flm_row blo bhi i j2len [] st = st"
| "flm_row blo bhi i j2len (j # js) (best, newj2len) =
     (if j < blo then flm_row blo bhi i j2len js (best, newj2len)
      else if bhi \<le> j then (best, newj2len)
      else
        let k = (if j = 0 then 0 else (case j2len (j - 1) of None \<Rightarrow> 0 | Some v \<Rightarrow> v)) + 1;
            best1 = (case best of
                       (besti, bestj, bestsize) \<Rightarrow>
                         if bestsize < k then (i + 1 - k, j + 1 - k, k) else best)
        in flm_row blo bhi i j2len js (best1, newj2len(j \<mapsto> k)))"

definition flm_rows ::
  "pystr \<Rightarrow> (nat \<rightharpoonup> nat list) \<Rightarrow> nat \<Rightarrow> nat \<Rightarrow> nat \<Rightarrow> nat \<Rightarrow> match \<times> (nat \<rightharpoonup> nat)" where
  "flm_rows a b2j alo ahi blo bhi =
     fold (\<lambda>i (best, j2len).
             flm_row blo bhi i j2len (case b2j (a ! i) of None \<Rightarrow> [] | Some js \<Rightarrow> js)
               (best, Map.empty))
       [alo..<ahi] ((alo, blo, 0), Map.empty)"

text \<open>
  The four \<^verbatim>\<open>while\<close> loops that extend the best match to the left and to the right:
  first by elements that are not junk, then by junk elements.
\<close>

function extend_left :: "bool \<Rightarrow> pystr \<Rightarrow> pystr \<Rightarrow> nat \<Rightarrow> nat \<Rightarrow> match \<Rightarrow> match" where
  "extend_left junk a b alo blo (besti, bestj, bestsize) =
     (if alo < besti \<and> blo < bestj \<and> isbjunk (b ! (bestj - 1)) = junk \<and>
         a ! (besti - 1) = b ! (bestj - 1)
      then extend_left junk a b alo blo (besti - 1, bestj - 1, bestsize + 1)
      else (besti, bestj, bestsize))"
  by pat_completeness auto
termination
  by (relation "measure (\<lambda>(junk, a, b, alo, blo, besti, bestj, bestsize). besti)") auto

function extend_right :: "bool \<Rightarrow> pystr \<Rightarrow> pystr \<Rightarrow> nat \<Rightarrow> nat \<Rightarrow> match \<Rightarrow> match" where
  "extend_right junk a b ahi bhi (besti, bestj, bestsize) =
     (if besti + bestsize < ahi \<and> bestj + bestsize < bhi \<and>
         isbjunk (b ! (bestj + bestsize)) = junk \<and>
         a ! (besti + bestsize) = b ! (bestj + bestsize)
      then extend_right junk a b ahi bhi (besti, bestj, bestsize + 1)
      else (besti, bestj, bestsize))"
  by pat_completeness auto
termination
  by (relation "measure (\<lambda>(junk, a, b, ahi, bhi, besti, bestj, bestsize). ahi - (besti + bestsize))")
     auto

definition find_longest_match :: "pystr \<Rightarrow> pystr \<Rightarrow> nat \<Rightarrow> nat \<Rightarrow> nat \<Rightarrow> nat \<Rightarrow> match" where
  "find_longest_match a b alo ahi blo bhi =
     extend_right True a b ahi bhi
       (extend_left True a b alo blo
          (extend_right False a b ahi bhi
             (extend_left False a b alo blo
                (fst (flm_rows a (chain_b b) alo ahi blo bhi)))))"

text \<open>
  The block \<^verbatim>\<open>find_longest_match\<close> returns lies within the ranges it was given. The
  loop of \<^verbatim>\<open>get_matching_blocks\<close> terminates because of that, so these facts come
  before its definition.
\<close>

lemma fold_upt_invariant:
  assumes "m \<le> n" and "P m s"
    and "\<And>i s. m \<le> i \<Longrightarrow> i < n \<Longrightarrow> P i s \<Longrightarrow> P (Suc i) (f i s)"
  shows "P n (fold f [m..<n] s)"
  using assms
proof (induction n)
  case 0
  then show ?case by simp
next
  case (Suc n)
  show ?case
  proof (cases "m = Suc n")
    case True
    with Suc.prems(2) show ?thesis by simp
  next
    case False
    with Suc.prems(1) have le: "m \<le> n" by simp
    have "P n (fold f [m..<n] s)"
      using le Suc.prems(2) Suc.prems(3) by (intro Suc.IH) auto
    then have "P (Suc n) (f n (fold f [m..<n] s))"
      using le by (intro Suc.prems(3)) auto
    then show ?thesis using le by simp
  qed
qed

definition side_a :: "nat \<Rightarrow> nat \<Rightarrow> match \<times> (nat \<rightharpoonup> nat) \<Rightarrow> bool" where
  "side_a alo i st =
     (case st of
        ((besti, bestj, bestsize), j2len) \<Rightarrow>
          alo \<le> besti \<and> besti + bestsize \<le> i \<and> (\<forall>j v. j2len j = Some v \<longrightarrow> v \<le> i - alo))"

definition side_b :: "nat \<Rightarrow> nat \<Rightarrow> match \<times> (nat \<rightharpoonup> nat) \<Rightarrow> bool" where
  "side_b blo bhi st =
     (case st of
        ((besti, bestj, bestsize), j2len) \<Rightarrow>
          blo \<le> bestj \<and> bestj + bestsize \<le> bhi \<and>
          (\<forall>j v. j2len j = Some v \<longrightarrow> blo \<le> j \<and> v \<le> Suc j - blo))"

lemma flm_row_side_a:
  assumes "alo \<le> i" and "\<forall>j v. j2len j = Some v \<longrightarrow> v \<le> i - alo"
    and "side_a alo (Suc i) st"
  shows "side_a alo (Suc i) (flm_row blo bhi i j2len js st)"
  using assms(3)
proof (induction js arbitrary: st)
  case Nil
  then show ?case by simp
next
  case (Cons j js)
  obtain bi bj bs new where st: "st = ((bi, bj, bs), new)" by (cases st) auto
  show ?case
  proof (cases "j < blo \<or> bhi \<le> j")
    case True
    then show ?thesis using Cons st by auto
  next
    case False
    define k where "k = (if j = 0 then 0 else (case j2len (j - 1) of None \<Rightarrow> 0 | Some v \<Rightarrow> v)) + 1"
    have k: "1 \<le> k" "k \<le> Suc i - alo"
    proof -
      show "1 \<le> k" by (simp add: k_def)
      show "k \<le> Suc i - alo"
      proof (cases "j2len (j - 1)")
        case None
        then show ?thesis using assms(1) by (auto simp: k_def)
      next
        case (Some v)
        with assms(2) have "v \<le> i - alo" by blast
        then show ?thesis using assms(1) Some by (auto simp: k_def)
      qed
    qed
    define best1 where "best1 = (if bs < k then (i + 1 - k, j + 1 - k, k) else (bi, bj, bs))"
    have step: "flm_row blo bhi i j2len (j # js) st =
        flm_row blo bhi i j2len js (best1, new(j \<mapsto> k))"
      using False by (simp add: st k_def best1_def Let_def)
    have "side_a alo (Suc i) (best1, new(j \<mapsto> k))"
      using Cons.prems k assms(1) by (auto simp: side_a_def st best1_def)
    then show ?thesis unfolding step by (rule Cons.IH)
  qed
qed

lemma flm_row_side_b:
  assumes "\<forall>j v. j2len j = Some v \<longrightarrow> blo \<le> j \<and> v \<le> Suc j - blo"
    and "side_b blo bhi st"
  shows "side_b blo bhi (flm_row blo bhi i j2len js st)"
  using assms(2)
proof (induction js arbitrary: st)
  case Nil
  then show ?case by simp
next
  case (Cons j js)
  obtain bi bj bs new where st: "st = ((bi, bj, bs), new)" by (cases st) auto
  show ?case
  proof (cases "j < blo \<or> bhi \<le> j")
    case True
    then show ?thesis using Cons st by auto
  next
    case False
    define k where "k = (if j = 0 then 0 else (case j2len (j - 1) of None \<Rightarrow> 0 | Some v \<Rightarrow> v)) + 1"
    have k: "1 \<le> k" "k \<le> Suc j - blo"
    proof -
      show "1 \<le> k" by (simp add: k_def)
      show "k \<le> Suc j - blo"
      proof (cases "j = 0")
        case True
        then show ?thesis using False by (simp add: k_def)
      next
        case nz: False
        show ?thesis
        proof (cases "j2len (j - 1)")
          case None
          then show ?thesis using False nz by (auto simp: k_def)
        next
          case (Some v)
          with assms(1) have "blo \<le> j - 1" "v \<le> Suc (j - 1) - blo" by auto
          then show ?thesis using nz Some by (auto simp: k_def)
        qed
      qed
    qed
    define best1 where "best1 = (if bs < k then (i + 1 - k, j + 1 - k, k) else (bi, bj, bs))"
    have step: "flm_row blo bhi i j2len (j # js) st =
        flm_row blo bhi i j2len js (best1, new(j \<mapsto> k))"
      using False by (simp add: st k_def best1_def Let_def)
    have "side_b blo bhi (best1, new(j \<mapsto> k))"
      using Cons.prems k False by (auto simp: side_b_def st best1_def)
    then show ?thesis unfolding step by (rule Cons.IH)
  qed
qed

lemma flm_rows_side_a:
  assumes "alo \<le> ahi"
  shows "side_a alo ahi (flm_rows a b2j alo ahi blo bhi)"
  unfolding flm_rows_def
proof (rule fold_upt_invariant [where P = "side_a alo", OF assms])
  show "side_a alo alo ((alo, blo, 0), Map.empty)" by (simp add: side_a_def)
next
  fix i st
  assume i: "alo \<le> i" "i < ahi" and inv: "side_a alo i st"
  obtain best j2len where st: "st = (best, j2len)" by (cases st)
  have prev: "\<forall>j v. j2len j = Some v \<longrightarrow> v \<le> i - alo"
    using inv by (auto simp: side_a_def st)
  have start: "side_a alo (Suc i) (best, Map.empty)"
    using inv by (auto simp: side_a_def st)
  show "side_a alo (Suc i)
      ((\<lambda>(best, j2len).
          flm_row blo bhi i j2len (case b2j (a ! i) of None \<Rightarrow> [] | Some js \<Rightarrow> js)
            (best, Map.empty)) st)"
    using flm_row_side_a [OF i(1) prev start] by (simp add: st)
qed

lemma flm_rows_side_b:
  assumes "blo \<le> bhi"
  shows "side_b blo bhi (flm_rows a b2j alo ahi blo bhi)"
proof -
  have step: "side_b blo bhi
      ((\<lambda>(best, j2len).
          flm_row blo bhi i j2len (case b2j (a ! i) of None \<Rightarrow> [] | Some js \<Rightarrow> js)
            (best, Map.empty)) st)"
    if inv: "side_b blo bhi st" for i st
  proof -
    obtain best j2len where st: "st = (best, j2len)" by (cases st)
    have prev: "\<forall>j v. j2len j = Some v \<longrightarrow> blo \<le> j \<and> v \<le> Suc j - blo"
      using inv by (auto simp: side_b_def st)
    have start: "side_b blo bhi (best, Map.empty)"
      using inv by (auto simp: side_b_def st)
    show ?thesis using flm_row_side_b [OF prev start] by (simp add: st)
  qed
  define f where "f = (\<lambda>i (best, j2len).
             flm_row blo bhi i j2len (case b2j (a ! i) of None \<Rightarrow> [] | Some js \<Rightarrow> js)
               (best, Map.empty))"
  have all: "side_b blo bhi (fold f rows st)" if "side_b blo bhi st" for rows st
    using that
  proof (induction rows arbitrary: st)
    case Nil
    then show ?case by simp
  next
    case (Cons i rows)
    have "side_b blo bhi (f i st)" unfolding f_def using Cons.prems by (rule step)
    then have "side_b blo bhi (fold f rows (f i st))" by (rule Cons.IH)
    then show ?case by simp
  qed
  have "side_b blo bhi ((alo, blo, 0), Map.empty)"
    using assms by (simp add: side_b_def)
  then have "side_b blo bhi (fold f [alo..<ahi] ((alo, blo, 0), Map.empty))" by (rule all)
  then show ?thesis unfolding flm_rows_def f_def .
qed

declare extend_left.simps [simp del]
declare extend_right.simps [simp del]

lemma extend_left_side_a:
  assumes "extend_left junk a b alo blo (bi, bj, bs) = (i, j, k)" and "alo \<le> bi"
  shows "alo \<le> i \<and> i + k = bi + bs"
  using assms
proof (induction junk a b alo blo "(bi, bj, bs)" arbitrary: bi bj bs rule: extend_left.induct)
  case (1 junk a b alo blo besti bestj bestsize)
  show ?case
  proof (cases "alo < besti \<and> blo < bestj \<and> isbjunk (b ! (bestj - 1)) = junk \<and>
         a ! (besti - 1) = b ! (bestj - 1)")
    case True
    then have "extend_left junk a b alo blo (besti - 1, bestj - 1, bestsize + 1) = (i, j, k)"
      using "1.prems"(1) by (simp add: extend_left.simps)
    then have "alo \<le> i \<and> i + k = besti - 1 + (bestsize + 1)"
      using True by (intro "1.hyps") auto
    then show ?thesis using True by auto
  next
    case False
    then have "(besti, bestj, bestsize) = (i, j, k)"
      using "1.prems"(1) by (simp add: extend_left.simps split: if_splits)
    then show ?thesis using "1.prems" by auto
  qed
qed

lemma extend_left_side_b:
  assumes "extend_left junk a b alo blo (bi, bj, bs) = (i, j, k)" and "blo \<le> bj"
  shows "blo \<le> j \<and> j + k = bj + bs"
  using assms
proof (induction junk a b alo blo "(bi, bj, bs)" arbitrary: bi bj bs rule: extend_left.induct)
  case (1 junk a b alo blo besti bestj bestsize)
  show ?case
  proof (cases "alo < besti \<and> blo < bestj \<and> isbjunk (b ! (bestj - 1)) = junk \<and>
         a ! (besti - 1) = b ! (bestj - 1)")
    case True
    then have "extend_left junk a b alo blo (besti - 1, bestj - 1, bestsize + 1) = (i, j, k)"
      using "1.prems"(1) by (simp add: extend_left.simps)
    then have "blo \<le> j \<and> j + k = bestj - 1 + (bestsize + 1)"
      using True by (intro "1.hyps") auto
    then show ?thesis using True by auto
  next
    case False
    then have "(besti, bestj, bestsize) = (i, j, k)"
      using "1.prems"(1) by (simp add: extend_left.simps split: if_splits)
    then show ?thesis using "1.prems" by auto
  qed
qed

lemma extend_right_fixes:
  assumes "extend_right junk a b ahi bhi (bi, bj, bs) = (i, j, k)"
  shows "i = bi \<and> j = bj \<and> bs \<le> k"
  using assms
proof (induction junk a b ahi bhi "(bi, bj, bs)" arbitrary: bs rule: extend_right.induct)
  case (1 junk a b ahi bhi bestsize)
  show ?case
  proof (cases "bi + bestsize < ahi \<and> bj + bestsize < bhi \<and>
         isbjunk (b ! (bj + bestsize)) = junk \<and> a ! (bi + bestsize) = b ! (bj + bestsize)")
    case True
    then have "extend_right junk a b ahi bhi (bi, bj, bestsize + 1) = (i, j, k)"
      using "1.prems"(1) by (simp add: extend_right.simps)
    then have "i = bi \<and> j = bj \<and> bestsize + 1 \<le> k"
      using True by (intro "1.hyps") auto
    then show ?thesis by auto
  next
    case False
    then have "(bi, bj, bestsize) = (i, j, k)"
      using "1.prems"(1) by (simp add: extend_right.simps split: if_splits)
    then show ?thesis by auto
  qed
qed

lemma extend_right_side_a:
  assumes "extend_right junk a b ahi bhi (bi, bj, bs) = (i, j, k)" and "bi + bs \<le> ahi"
  shows "i + k \<le> ahi"
  using assms
proof (induction junk a b ahi bhi "(bi, bj, bs)" arbitrary: bs rule: extend_right.induct)
  case (1 junk a b ahi bhi bestsize)
  show ?case
  proof (cases "bi + bestsize < ahi \<and> bj + bestsize < bhi \<and>
         isbjunk (b ! (bj + bestsize)) = junk \<and> a ! (bi + bestsize) = b ! (bj + bestsize)")
    case True
    then have "extend_right junk a b ahi bhi (bi, bj, bestsize + 1) = (i, j, k)"
      using "1.prems"(1) by (simp add: extend_right.simps)
    then show ?thesis using True by (intro "1.hyps") auto
  next
    case False
    then have "(bi, bj, bestsize) = (i, j, k)"
      using "1.prems"(1) by (simp add: extend_right.simps split: if_splits)
    then show ?thesis using "1.prems" by auto
  qed
qed

lemma extend_right_side_b:
  assumes "extend_right junk a b ahi bhi (bi, bj, bs) = (i, j, k)" and "bj + bs \<le> bhi"
  shows "j + k \<le> bhi"
  using assms
proof (induction junk a b ahi bhi "(bi, bj, bs)" arbitrary: bs rule: extend_right.induct)
  case (1 junk a b ahi bhi bestsize)
  show ?case
  proof (cases "bi + bestsize < ahi \<and> bj + bestsize < bhi \<and>
         isbjunk (b ! (bj + bestsize)) = junk \<and> a ! (bi + bestsize) = b ! (bj + bestsize)")
    case True
    then have "extend_right junk a b ahi bhi (bi, bj, bestsize + 1) = (i, j, k)"
      using "1.prems"(1) by (simp add: extend_right.simps)
    then show ?thesis using True by (intro "1.hyps") auto
  next
    case False
    then have "(bi, bj, bestsize) = (i, j, k)"
      using "1.prems"(1) by (simp add: extend_right.simps split: if_splits)
    then show ?thesis using "1.prems" by auto
  qed
qed

lemma find_longest_match_side_a:
  assumes "find_longest_match a b alo ahi blo bhi = (i, j, k)" and "alo \<le> ahi"
  shows "alo \<le> i \<and> i + k \<le> ahi"
proof -
  obtain i0 j0 k0 m where r: "flm_rows a (chain_b b) alo ahi blo bhi = ((i0, j0, k0), m)"
    by (cases "flm_rows a (chain_b b) alo ahi blo bhi") auto
  have s0: "alo \<le> i0" "i0 + k0 \<le> ahi"
    using flm_rows_side_a [OF assms(2), of a "chain_b b" blo bhi] by (auto simp: side_a_def r)
  obtain i1 j1 k1 where e1: "extend_left False a b alo blo (i0, j0, k0) = (i1, j1, k1)"
    by (cases "extend_left False a b alo blo (i0, j0, k0)") auto
  obtain i2 j2 k2 where e2: "extend_right False a b ahi bhi (i1, j1, k1) = (i2, j2, k2)"
    by (cases "extend_right False a b ahi bhi (i1, j1, k1)") auto
  obtain i3 j3 k3 where e3: "extend_left True a b alo blo (i2, j2, k2) = (i3, j3, k3)"
    by (cases "extend_left True a b alo blo (i2, j2, k2)") auto
  have e4: "extend_right True a b ahi bhi (i3, j3, k3) = (i, j, k)"
    using assms(1) by (simp add: find_longest_match_def r e1 e2 e3)
  from extend_left_side_a [OF e1 s0(1)] s0(2) have s1: "alo \<le> i1" "i1 + k1 \<le> ahi" by auto
  from extend_right_fixes [OF e2] extend_right_side_a [OF e2 s1(2)] s1(1)
  have s2: "alo \<le> i2" "i2 + k2 \<le> ahi" by auto
  from extend_left_side_a [OF e3 s2(1)] s2(2) have s3: "alo \<le> i3" "i3 + k3 \<le> ahi" by auto
  from extend_right_fixes [OF e4] extend_right_side_a [OF e4 s3(2)] s3(1)
  show ?thesis by auto
qed

lemma find_longest_match_side_b:
  assumes "find_longest_match a b alo ahi blo bhi = (i, j, k)" and "blo \<le> bhi"
  shows "blo \<le> j \<and> j + k \<le> bhi"
proof -
  obtain i0 j0 k0 m where r: "flm_rows a (chain_b b) alo ahi blo bhi = ((i0, j0, k0), m)"
    by (cases "flm_rows a (chain_b b) alo ahi blo bhi") auto
  have s0: "blo \<le> j0" "j0 + k0 \<le> bhi"
    using flm_rows_side_b [OF assms(2), of a "chain_b b" alo ahi] by (auto simp: side_b_def r)
  obtain i1 j1 k1 where e1: "extend_left False a b alo blo (i0, j0, k0) = (i1, j1, k1)"
    by (cases "extend_left False a b alo blo (i0, j0, k0)") auto
  obtain i2 j2 k2 where e2: "extend_right False a b ahi bhi (i1, j1, k1) = (i2, j2, k2)"
    by (cases "extend_right False a b ahi bhi (i1, j1, k1)") auto
  obtain i3 j3 k3 where e3: "extend_left True a b alo blo (i2, j2, k2) = (i3, j3, k3)"
    by (cases "extend_left True a b alo blo (i2, j2, k2)") auto
  have e4: "extend_right True a b ahi bhi (i3, j3, k3) = (i, j, k)"
    using assms(1) by (simp add: find_longest_match_def r e1 e2 e3)
  from extend_left_side_b [OF e1 s0(1)] s0(2) have s1: "blo \<le> j1" "j1 + k1 \<le> bhi" by auto
  from extend_right_fixes [OF e2] extend_right_side_b [OF e2 s1(2)] s1(1)
  have s2: "blo \<le> j2" "j2 + k2 \<le> bhi" by auto
  from extend_left_side_b [OF e3 s2(1)] s2(2) have s3: "blo \<le> j3" "j3 + k3 \<le> bhi" by auto
  from extend_right_fixes [OF e4] extend_right_side_b [OF e4 s3(2)] s3(1)
  show ?thesis by auto
qed

lemma find_longest_match_empty_range:
  assumes "ahi \<le> alo"
  shows "find_longest_match a b alo ahi blo bhi = (alo, blo, 0)"
proof -
  have "flm_rows a (chain_b b) alo ahi blo bhi = ((alo, blo, 0), Map.empty)"
    using assms by (simp add: flm_rows_def)
  then show ?thesis
    using assms by (simp add: find_longest_match_def extend_left.simps extend_right.simps)
qed

lemma find_longest_match_progress:
  assumes "find_longest_match a b alo ahi blo bhi = (i, j, k)" and "k \<noteq> 0"
  shows "alo \<le> i \<and> i + k \<le> ahi"
proof (cases "alo \<le> ahi")
  case True
  with assms(1) show ?thesis by (rule find_longest_match_side_a)
next
  case False
  then have "find_longest_match a b alo ahi blo bhi = (alo, blo, 0)"
    by (intro find_longest_match_empty_range) simp
  with assms show ?thesis by simp
qed

text \<open>
  \<^verbatim>\<open>get_matching_blocks\<close>: the loop over the queue of ranges still to be matched
  (\<^verbatim>\<open>queue.pop()\<close> takes the range appended last, which is the head of the list here),
  the sort of the blocks found, the pass that merges adjacent blocks, and the final
  sentinel of size 0.
\<close>

definition queue_weight :: "(nat \<times> nat \<times> nat \<times> nat) list \<Rightarrow> nat" where
  "queue_weight queue = sum_list (map (\<lambda>(alo, ahi, blo, bhi). 2 * (ahi - alo) + 1) queue)"

function match_loop ::
  "pystr \<Rightarrow> pystr \<Rightarrow> (nat \<times> nat \<times> nat \<times> nat) list \<Rightarrow> match list \<Rightarrow> match list" where
  "match_loop a b [] matching_blocks = matching_blocks"
| "match_loop a b ((alo, ahi, blo, bhi) # queue) matching_blocks =
     (case find_longest_match a b alo ahi blo bhi of
        (i, j, k) \<Rightarrow>
          if k \<noteq> 0
          then
            let queue1 = (if alo < i \<and> blo < j then (alo, i, blo, j) # queue else queue);
                queue2 = (if i + k < ahi \<and> j + k < bhi then (i + k, ahi, j + k, bhi) # queue1
                          else queue1)
            in match_loop a b queue2 (matching_blocks @ [(i, j, k)])
          else match_loop a b queue matching_blocks)"
  by pat_completeness auto
termination
proof (relation "measure (\<lambda>(a, b, queue, matching_blocks). queue_weight queue)", goal_cases)
  case 1
  show ?case by simp
next
  case (2 a b alo ahi blo bhi queue matching_blocks i y j k queue1 queue2)
  then have "find_longest_match a b alo ahi blo bhi = (i, j, k)" by simp
  from find_longest_match_progress [OF this \<open>k \<noteq> 0\<close>] have "alo \<le> i" "i + k \<le> ahi" by auto
  with \<open>k \<noteq> 0\<close> show ?case
    unfolding \<open>queue2 = _\<close> \<open>queue1 = _\<close> by (auto simp: queue_weight_def)
next
  case (3 a b alo ahi blo bhi queue matching_blocks i y j k)
  show ?case by (simp add: queue_weight_def)
qed

fun collapse_adjacent :: "match list \<Rightarrow> match \<Rightarrow> match list \<Rightarrow> match list" where
  "collapse_adjacent [] (i1, j1, k1) non_adjacent =
     (if k1 \<noteq> 0 then non_adjacent @ [(i1, j1, k1)] else non_adjacent)"
| "collapse_adjacent ((i2, j2, k2) # rest) (i1, j1, k1) non_adjacent =
     (if i1 + k1 = i2 \<and> j1 + k1 = j2 then collapse_adjacent rest (i1, j1, k1 + k2) non_adjacent
      else collapse_adjacent rest (i2, j2, k2)
             (if k1 \<noteq> 0 then non_adjacent @ [(i1, j1, k1)] else non_adjacent))"

definition get_matching_blocks :: "pystr \<Rightarrow> pystr \<Rightarrow> match list" where
  "get_matching_blocks a b =
     (let la = length a;
          lb = length b;
          matching_blocks = sort (match_loop a b [(0, la, 0, lb)] [])
      in collapse_adjacent matching_blocks (0, 0, 0) [] @ [(la, lb, 0)])"

text \<open>
  \<^verbatim>\<open>_calculate_ratio\<close> and \<^verbatim>\<open>ratio()\<close>. The result is a Python float; it is modelled by
  the exact quotient. The quotient of two integers below \<open>2^53\<close> is rounded correctly and
  monotonically, so 0, 1 and every comparison with them are exact.
\<close>

definition calculate_ratio :: "nat \<Rightarrow> nat \<Rightarrow> real" where
  "calculate_ratio matches len = (if len \<noteq> 0 then 2 * real matches / real len else 1)"

definition ratio :: "pystr \<Rightarrow> pystr \<Rightarrow> real" where
  "ratio a b =
     (let matches = sum_list (map (\<lambda>(i, j, k). k) (get_matching_blocks a b))
      in calculate_ratio matches (length a + length b))"

section \<open>utils.py: similarity and best match\<close>

text \<open>
  \<^verbatim>\<open>calculate_similarity(str1, str2)\<close> and \<^verbatim>\<open>find_best_match(query, candidates,
  threshold)\<close>; \<open>best_match_loop\<close> is the \<^verbatim>\<open>for\<close> loop of the latter, its state the pair
  \<^verbatim>\<open>(best_match, best_score)\<close>.
\<close>

definition calculate_similarity :: "(nat \<Rightarrow> pystr) \<Rightarrow> pystr \<Rightarrow> pystr \<Rightarrow> real" where
  "calculate_similarity tbl str1 str2 =
     (if str1 = [] \<or> str2 = [] then 0
      else ratio (normalize_text tbl (Some str1)) (normalize_text tbl (Some str2)))"

fun best_match_loop ::
  "(nat \<Rightarrow> pystr) \<Rightarrow> pystr \<Rightarrow> pystr list \<Rightarrow> pystr option \<times> real \<Rightarrow> pystr option \<times> real" where
  "best_match_loop tbl query [] st = st"
| "best_match_loop tbl query (candidate # candidates) (best_match, best_score) =
     (let score = calculate_similarity tbl query candidate
      in if best_score < score
         then best_match_loop tbl query candidates (Some candidate, score)
         else best_match_loop tbl query candidates (best_match, best_score))"

definition find_best_match ::
  "(nat \<Rightarrow> pystr) \<Rightarrow> pystr \<Rightarrow> pystr list \<Rightarrow> real \<Rightarrow> pystr option" where
  "find_best_match tbl query candidates threshold =
     (if candidates = [] then None
      else fst (best_match_loop tbl query candidates (None, threshold)))"

section \<open>addon.py: the request handlers\<close>

text \<open>
  Values that travel in requests, responses and the caches: the JSON-like part of
  Python's values. A dictionary is the list of its items in insertion order.
\<close>

datatype json = JNull | JInt int | JStr pystr | JList "json list" | JDict "(pystr \<times> json) list"

type_synonym pydict = "(pystr \<times> json) list"

text \<open>
  The result of a call: a returned value, or a raised exception (named by its class).
  The handlers below contain no \<^verbatim>\<open>raise\<close>; an exception can only come out of the fetch
  method they call, and \<^verbatim>\<open>AddonHandler.handle_metadata\<close> and \<^verbatim>\<open>handle_stream\<close> catch it.
\<close>

datatype 'a outcome = Returned 'a | Raised pystr

text \<open>
  \<^verbatim>\<open>str(n)\<close> for an integer, and for the \<^verbatim>\<open>None\<close> an f-string may be given.
\<close>

function str_nat :: "nat \<Rightarrow> pystr" where
  "str_nat n = (if n < 10 then [48 + n] else str_nat (n div 10) @ [48 + n mod 10])"
  by pat_completeness auto
termination
  by (relation "measure id") auto

definition str_int :: "int \<Rightarrow> pystr" where
  "str_int i = (if i < 0 then 45 # str_nat (nat (- i)) else str_nat (nat i))"

definition str_opt_int :: "int option \<Rightarrow> pystr" where
  "str_opt_int x = (case x of None \<Rightarrow> lit ''None'' | Some i \<Rightarrow> str_int i)"

text \<open>
  A request dictionary, read by the handlers through \<^verbatim>\<open>request.get\<close> on four keys only:
  \<^verbatim>\<open>"id"\<close>, \<^verbatim>\<open>"type"\<close> (default \<^verbatim>\<open>"movie"\<close>), \<^verbatim>\<open>"season"\<close> and \<^verbatim>\<open>"episode"\<close>. A field is
  \<open>None\<close> when the key is absent.
\<close>

record request =
  req_id :: "pystr option"
  req_type :: "pystr option"
  req_season :: "int option"
  req_episode :: "int option"

definition request_type :: "request \<Rightarrow> pystr" where
  "request_type request = (case req_type request of None \<Rightarrow> lit ''movie'' | Some t \<Rightarrow> t)"

text \<open>
  The state of a \<^verbatim>\<open>MetadataHandler\<close> or a \<^verbatim>\<open>StreamHandler\<close>: its \<^verbatim>\<open>cache\<close> dictionary,
  and the calls it has made to its fetch method so far, which is how a fetch is observed
  (the source logs each one). An entry of the cache is a value and nothing else: no
  creation time is stored with it.
\<close>

type_synonym fetch_call = "pystr \<times> pystr \<times> int option \<times> int option"

record handler =
  cache :: "pystr \<rightharpoonup> json"
  fetches :: "fetch_call list"

definition cache_put :: "handler \<Rightarrow> pystr \<Rightarrow> json \<Rightarrow> handler" where
  "cache_put h cache_key v = h\<lparr>cache := (cache h)(cache_key \<mapsto> v)\<rparr>"

definition log_fetch :: "handler \<Rightarrow> fetch_call \<Rightarrow> handler" where
  "log_fetch h call = h\<lparr>fetches := fetches h @ [call]\<rparr>"

definition new_handler :: handler where
  "new_handler = \<lparr>cache = Map.empty, fetches = []\<rparr>"

text \<open>
  \<^verbatim>\<open>MetadataHandler._fetch_metadata\<close> as the repository has it (a skeleton with every
  field empty), and \<^verbatim>\<open>MetadataHandler.get_metadata\<close>. The handler calls
  \<^verbatim>\<open>self._fetch_metadata\<close>, a method a subclass or a test double may replace, so the
  fetch is the parameter \<open>fetch\<close>. \<^verbatim>\<open>not content_id\<close> holds for an absent and for an
  empty identifier; \<^verbatim>\<open>if meta\<close> holds for a non-empty dictionary.
\<close>

definition metadata_skeleton :: "pystr \<Rightarrow> pystr \<Rightarrow> pydict" where
  "metadata_skeleton content_id content_type =
     [(lit ''id'', JStr content_id), (lit ''type'', JStr content_type),
      (lit ''name'', JStr []), (lit ''poster'', JStr []),
      (lit ''description'', JStr []), (lit ''releaseInfo'', JStr []),
      (lit ''imdbRating'', JInt 0), (lit ''runtime'', JStr []),
      (lit ''genres'', JList []), (lit ''writers'', JList []),
      (lit ''directors'', JList []), (lit ''cast'', JList []),
      (lit ''videos'', JList [])]"

definition fetch_metadata :: "pystr \<Rightarrow> pystr \<Rightarrow> pydict outcome" where
  "fetch_metadata content_id content_type =
     Returned (metadata_skeleton content_id content_type)"

definition metadata_cache_key :: "pystr \<Rightarrow> pystr \<Rightarrow> pystr" where
  "metadata_cache_key content_type content_id = content_type @ lit '':'' @ content_id"

definition get_metadata ::
  "(pystr \<Rightarrow> pystr \<Rightarrow> pydict outcome) \<Rightarrow> handler \<Rightarrow> request \<Rightarrow> pydict outcome \<times> handler" where
  "get_metadata fetch h request =
     (let content_id = (case req_id request of None \<Rightarrow> [] | Some i \<Rightarrow> i);
          content_type = request_type request
      in if content_id = [] then (Returned [(lit ''meta'', JDict [])], h)
         else
           let cache_key = metadata_cache_key content_type content_id
           in if cache h cache_key \<noteq> None
              then (Returned [(lit ''meta'', the (cache h cache_key))], h)
              else
                let h1 = log_fetch h (content_id, content_type, None, None)
                in (case fetch content_id content_type of
                      Raised e \<Rightarrow> (Raised e, h1)
                    | Returned meta \<Rightarrow>
                        (Returned [(lit ''meta'', JDict meta),
                                   (lit ''cacheMaxAge'', JInt 604800)],
                         if meta \<noteq> [] then cache_put h1 cache_key (JDict meta) else h1)))"

text \<open>
  \<^verbatim>\<open>StreamHandler._fetch_streams\<close> as the repository has it (it returns the empty
  list), the cache key of \<^verbatim>\<open>get_streams\<close>, and \<^verbatim>\<open>StreamHandler.get_streams\<close>.
\<close>

definition fetch_streams ::
  "pystr \<Rightarrow> pystr \<Rightarrow> int option \<Rightarrow> int option \<Rightarrow> pydict list outcome" where
  "fetch_streams content_id content_type season episode = Returned []"

definition stream_cache_key :: "pystr \<Rightarrow> pystr \<Rightarrow> int option \<Rightarrow> int option \<Rightarrow> pystr" where
  "stream_cache_key content_type content_id season episode =
     (let cache_key = content_type @ lit '':'' @ content_id
      in case season of
           None \<Rightarrow> cache_key
         | Some s \<Rightarrow> cache_key @ lit '':s'' @ str_int s @ lit ''e'' @ str_opt_int episode)"

definition get_streams ::
  "(pystr \<Rightarrow> pystr \<Rightarrow> int option \<Rightarrow> int option \<Rightarrow> pydict list outcome) \<Rightarrow>
     handler \<Rightarrow> request \<Rightarrow> pydict outcome \<times> handler" where
  "get_streams fetch h request =
     (let content_id = (case req_id request of None \<Rightarrow> [] | Some i \<Rightarrow> i);
          content_type = request_type request;
          season = req_season request;
          episode = req_episode request
      in if content_id = [] then (Returned [(lit ''streams'', JList [])], h)
         else
           let cache_key = stream_cache_key content_type content_id season episode
           in if cache h cache_key \<noteq> None
              then (Returned [(lit ''streams'', the (cache h cache_key))], h)
              else
                let h1 = log_fetch h (content_id, content_type, season, episode)
                in (case fetch content_id content_type season episode of
                      Raised e \<Rightarrow> (Raised e, h1)
                    | Returned streams \<Rightarrow>
                        (Returned [(lit ''streams'', JList (map JDict streams)),
                                   (lit ''cacheMaxAge'', JInt 3600)],
                         if streams \<noteq> []
                         then cache_put h1 cache_key (JList (map JDict streams))
                         else h1)))"

text \<open>
  \<^verbatim>\<open>AddonHandler.handle_metadata\<close> and \<^verbatim>\<open>AddonHandler.handle_stream\<close>: any exception
  becomes the default envelope.
\<close>

definition handle_metadata ::
  "(pystr \<Rightarrow> pystr \<Rightarrow> pydict outcome) \<Rightarrow> handler \<Rightarrow> request \<Rightarrow> pydict outcome \<times> handler" where
  "handle_metadata fetch h request =
     (case get_metadata fetch h request of
        (Raised e, h1) \<Rightarrow> (Returned [(lit ''meta'', JDict [])], h1)
      | (Returned r, h1) \<Rightarrow> (Returned r, h1))"

definition handle_stream ::
  "(pystr \<Rightarrow> pystr \<Rightarrow> int option \<Rightarrow> int option \<Rightarrow> pydict list outcome) \<Rightarrow>
     handler \<Rightarrow> request \<Rightarrow> pydict outcome \<times> handler" where
  "handle_stream fetch h request =
     (case get_streams fetch h request of
        (Raised e, h1) \<Rightarrow> (Returned [(lit ''streams'', JList [])], h1)
      | (Returned r, h1) \<Rightarrow> (Returned r, h1))"

text \<open>
  \<^verbatim>\<open>CatalogHandler.get_catalog\<close> with its three helper methods, each of which returns the
  empty list in the repository. It neither reads nor writes \<^verbatim>\<open>self.cache\<close>.
\<close>

record catalog_request =
  cat_type :: "pystr option"
  cat_genre :: "pystr option"
  cat_search :: "pystr option"
  cat_skip :: "int option"

definition search_catalog :: "pystr \<Rightarrow> pystr \<Rightarrow> pydict list" where
  "search_catalog query content_type = []"

definition get_by_genre :: "pystr \<Rightarrow> pystr \<Rightarrow> int \<Rightarrow> pydict list" where
  "get_by_genre genre content_type skip = []"

definition get_popular :: "pystr \<Rightarrow> int \<Rightarrow> pydict list" where
  "get_popular content_type skip = []"

definition get_catalog :: "catalog_request \<Rightarrow> pydict" where
  "get_catalog request =
     (let content_type = (case cat_type request of None \<Rightarrow> lit ''movie'' | Some t \<Rightarrow> t);
          genre = (case cat_genre request of None \<Rightarrow> [] | Some g \<Rightarrow> g);
          search = (case cat_search request of None \<Rightarrow> [] | Some q \<Rightarrow> q);
          skip = (case cat_skip request of None \<Rightarrow> 0 | Some k \<Rightarrow> k);
          metas = (if search \<noteq> [] then search_catalog search content_type
                   else if genre \<noteq> [] then get_by_genre genre content_type skip
                   else get_popular content_type skip)
      in [(lit ''metas'', JList (map JDict metas)), (lit ''cacheMaxAge'', JInt 86400)])"

text \<open>
  \<^verbatim>\<open>clear_cache\<close>, the only operation that removes entries.
\<close>

definition clear_cache :: "handler \<Rightarrow> handler" where
  "clear_cache h = h\<lparr>cache := Map.empty\<rparr>"

text \<open>
  A run of one handler: requests are served in order, each with the time (in seconds)
  at which it arrives. No entry point takes the time as an argument or reads a clock,
  so the time of arrival is not passed on.
\<close>

fun serve ::
  "(handler \<Rightarrow> request \<Rightarrow> 'r \<times> handler) \<Rightarrow> handler \<Rightarrow> (nat \<times> request) list \<Rightarrow> 'r list \<times> handler" where
  "serve entry h [] = ([], h)"
| "serve entry h ((arrival, request) # rest) =
     (case entry h request of
        (response, h1) \<Rightarrow>
          (case serve entry h1 rest of (responses, h2) \<Rightarrow> (response # responses, h2)))"

section \<open>cuevana_scraper.py: extraction of a listing page\<close>

text \<open>
  The two constants of \<^verbatim>\<open>constants.py\<close> the scraper uses.
\<close>

definition ID_PREFIX :: pystr where
  "ID_PREFIX = lit ''cuevanap_''"

definition CUEVANA_PRO_URL :: pystr where
  "CUEVANA_PRO_URL = lit ''https://cuevana.pro/''"

text \<open>
  What \<^verbatim>\<open>_parse_movie_item\<close> reads of one element of a listing page, through
  \<^verbatim>\<open>select_one\<close>: the stripped text of the first title node, the \<^verbatim>\<open>href\<close> attribute of
  the first link, the \<^verbatim>\<open>src\<close> and \<^verbatim>\<open>data-src\<close> attributes of the first image, and the
  stripped text of the first year node. \<open>None\<close> is a node (or, one level in, an
  attribute) that is not there. A tag of BeautifulSoup is always true in a condition,
  so \<^verbatim>\<open>not title\<close> holds exactly when there is no title node.
\<close>

record item_node =
  title_node :: "pystr option"
  link_node :: "pystr option option"
  poster_node :: "(pystr option \<times> pystr option) option"
  year_node :: "pystr option"

text \<open>
  \<^verbatim>\<open>_parse_movie_item\<close>. \<^verbatim>\<open>urljoin\<close> of the standard library is a parameter; it can raise
  \<^verbatim>\<open>ValueError\<close>, which the \<^verbatim>\<open>except\<close> of the method turns into \<^verbatim>\<open>None\<close>.
\<close>

definition startswith :: "pystr \<Rightarrow> pystr \<Rightarrow> bool" where
  "startswith s prefix = (take (length prefix) s = prefix)"

definition parse_movie_item ::
  "(pystr \<Rightarrow> pystr \<Rightarrow> pystr outcome) \<Rightarrow> item_node \<Rightarrow> pydict option" where
  "parse_movie_item urljoin element =
     (case title_node element of
        None \<Rightarrow> None
      | Some title \<Rightarrow>
          (case link_node element of
             None \<Rightarrow> None
           | Some href \<Rightarrow>
               (let movie_url = (case href of None \<Rightarrow> [] | Some u \<Rightarrow> u);
                    resolved = (if \<not> startswith movie_url (lit ''http'')
                                then urljoin CUEVANA_PRO_URL movie_url
                                else Returned movie_url)
                in case resolved of
                     Raised e \<Rightarrow> None
                   | Returned movie_url \<Rightarrow>
                       Some [(lit ''type'', JStr (lit ''movie'')),
                             (lit ''id'', JStr (ID_PREFIX @ movie_url)),
                             (lit ''name'', JStr title),
                             (lit ''poster'',
                                (case poster_node element of
                                   None \<Rightarrow> JStr []
                                 | Some (src, data_src) \<Rightarrow>
                                     (case src of
                                        Some s \<Rightarrow> JStr s
                                      | None \<Rightarrow>
                                          (case data_src of Some d \<Rightarrow> JStr d | None \<Rightarrow> JNull)))),
                             (lit ''year'',
                                (case year_node element of None \<Rightarrow> JStr [] | Some y \<Rightarrow> JStr y)),
                             (lit ''url'', JStr movie_url)])))"

text \<open>
  \<^verbatim>\<open>search_movies\<close>. The argument \<open>page\<close> is what the request and the selector
  \<^verbatim>\<open>'.movie-item, .film-item, article'\<close> produce: the elements of the page, or an
  exception of the transport or of \<^verbatim>\<open>raise_for_status\<close>, which the outer \<^verbatim>\<open>except\<close>
  turns into the empty list. \<open>py_slice_to\<close> is the slice \<^verbatim>\<open>[:limit]\<close>, taken before any
  element is parsed; \<open>parse_loop\<close> is the loop over the slice.
\<close>

definition py_slice_to :: "int \<Rightarrow> 'a list \<Rightarrow> 'a list" where
  "py_slice_to limit xs =
     (if 0 \<le> limit then take (nat limit) xs else take (length xs - nat (- limit)) xs)"

fun parse_loop ::
  "(pystr \<Rightarrow> pystr \<Rightarrow> pystr outcome) \<Rightarrow> item_node list \<Rightarrow> pydict list \<Rightarrow> pydict list" where
  "parse_loop urljoin [] movies = movies"
| "parse_loop urljoin (item # items) movies =
     (case parse_movie_item urljoin item of
        None \<Rightarrow> parse_loop urljoin items movies
      | Some movie \<Rightarrow>
          if movie \<noteq> [] then parse_loop urljoin items (movies @ [movie])
          else parse_loop urljoin items movies)"

definition search_movies ::
  "(pystr \<Rightarrow> pystr \<Rightarrow> pystr outcome) \<Rightarrow> item_node list outcome \<Rightarrow> int \<Rightarrow> pydict list" where
  "search_movies urljoin page limit =
     (case page of
        Raised e \<Rightarrow> []
      | Returned nodes \<Rightarrow> parse_loop urljoin (py_slice_to limit nodes) [])"

section \<open>Auxiliary notions for the proofs\<close>

text \<open>
  A string is \<open>collapsed\<close> when each white-space code point in it is a single space
  that is not followed by white space: the shape \<open>re_sub_spaces\<close> produces and leaves
  unchanged.
\<close>

fun collapsed :: "pystr \<Rightarrow> bool" where
  "collapsed [] = True"
| "collapsed [c] = (\<not> py_isspace c \<or> c = 32)"
| "collapsed (c # d # cs) =
     ((\<not> py_isspace c \<or> (c = 32 \<and> \<not> py_isspace d)) \<and> collapsed (d # cs))"

text \<open>
  Requests and a fetch used in the worked examples: a request for a movie by
  identifier, a request for a series episode, and a fetch that finds one stream.
\<close>

definition movie_request :: "pystr \<Rightarrow> request" where
  "movie_request content_id =
     \<lparr>req_id = Some content_id, req_type = None, req_season = None, req_episode = None\<rparr>"

definition series_request :: "pystr \<Rightarrow> int option \<Rightarrow> int option \<Rightarrow> request" where
  "series_request content_id season episode =
     \<lparr>req_id = Some content_id, req_type = Some (lit ''series''), req_season = season,
      req_episode = episode\<rparr>"

definition one_stream :: "pystr \<Rightarrow> pystr \<Rightarrow> int option \<Rightarrow> int option \<Rightarrow> pydict list outcome" where
  "one_stream content_id content_type season episode =
     Returned [[(lit ''url'', JStr (lit ''https://cuevana.pro/v/1''))]]"

text \<open>
  For the worked examples: \<^verbatim>\<open>urljoin\<close> on a base that ends in a slash and a plain
  relative path, where it appends the path (the empty path gives the base, as
  \<^verbatim>\<open>urljoin\<close> does); an element with a title and a link, one without a title, one whose
  link has no \<^verbatim>\<open>href\<close>; a page of five elements whose third has no title, and the same
  page with a third element that has a title and a link without \<^verbatim>\<open>href\<close>.
\<close>

definition urljoin_path :: "pystr \<Rightarrow> pystr \<Rightarrow> pystr outcome" where
  "urljoin_path base url = Returned (base @ url)"

definition movie_node :: "pystr \<Rightarrow> pystr \<Rightarrow> item_node" where
  "movie_node title href =
     \<lparr>title_node = Some title, link_node = Some (Some href), poster_node = None,
      year_node = None\<rparr>"

definition untitled_node :: "pystr \<Rightarrow> item_node" where
  "untitled_node href =
     \<lparr>title_node = None, link_node = Some (Some href), poster_node = None, year_node = None\<rparr>"

definition five_items :: "item_node list" where
  "five_items =
     [movie_node (lit ''Uno'') (lit ''pelicula/uno''),
      movie_node (lit ''Dos'') (lit ''https://cuevana.pro/pelicula/dos''),
      untitled_node (lit ''pelicula/tres''),
      movie_node (lit ''Cuatro'') (lit ''pelicula/cuatro''),
      movie_node (lit ''Cinco'') (lit ''pelicula/cinco'')]"

definition hrefless_node :: "pystr \<Rightarrow> item_node" where
  "hrefless_node title =
     \<lparr>title_node = Some title, link_node = Some None, poster_node = None, year_node = None\<rparr>"

definition five_items_no_href :: "item_node list" where
  "five_items_no_href =
     [movie_node (lit ''Uno'') (lit ''pelicula/uno''),
      movie_node (lit ''Dos'') (lit ''https://cuevana.pro/pelicula/dos''),
      hrefless_node (lit ''Tres''),
      movie_node (lit ''Cuatro'') (lit ''pelicula/cuatro''),
      movie_node (lit ''Cinco'') (lit ''pelicula/cinco'')]"

text \<open>
  Position \<open>i\<close> is the first best candidate above the threshold: its score exceeds the
  threshold, no candidate scores higher, and every earlier candidate scores strictly
  lower.
\<close>

definition is_first_best :: "(pystr \<Rightarrow> real) \<Rightarrow> pystr list \<Rightarrow> real \<Rightarrow> nat \<Rightarrow> bool" where
  "is_first_best score candidates threshold i =
     (i < length candidates \<and> threshold < score (candidates ! i) \<and>
      (\<forall>j<length candidates. score (candidates ! j) \<le> score (candidates ! i)) \<and>
      (\<forall>j<i. score (candidates ! j) < score (candidates ! i)))"

text \<open>
  For the bounds on \<^verbatim>\<open>ratio()\<close>: the total size of a list of blocks; a queue whose
  ranges are all well-ordered; the total width of the ranges of a queue, on either
  side.
\<close>

definition block_sizes :: "match list \<Rightarrow> nat" where
  "block_sizes blocks = sum_list (map (\<lambda>(i, j, k). k) blocks)"

definition ranges_ok :: "(nat \<times> nat \<times> nat \<times> nat) list \<Rightarrow> bool" where
  "ranges_ok queue = list_all (\<lambda>(alo, ahi, blo, bhi). alo \<le> ahi \<and> blo \<le> bhi) queue"

definition width_a :: "(nat \<times> nat \<times> nat \<times> nat) list \<Rightarrow> nat" where
  "width_a queue = sum_list (map (\<lambda>(alo, ahi, blo, bhi). ahi - alo) queue)"

definition width_b :: "(nat \<times> nat \<times> nat \<times> nat) list \<Rightarrow> nat" where
  "width_b queue = sum_list (map (\<lambda>(alo, ahi, blo, bhi). bhi - blo) queue)"

text \<open>
  For the similarity of a string with itself. \<open>positions b elt\<close> lists where \<open>elt\<close>
  occurs in \<open>b\<close>. Position \<open>r\<close> of \<open>s\<close> is \<open>unpopular\<close> when its element is still a key of
  \<open>b2j\<close>; \<open>run_length s r\<close> is the number of consecutive unpopular positions that end
  at \<open>r\<close>. \<open>cell j2len j\<close> is the \<open>k\<close> the inner loop computes at \<open>j\<close>. \<open>diag_inv\<close> is the
  invariant of the outer loop when a string is matched against itself: the best block
  lies on the diagonal and is at least as long as every run seen so far, and the entries
  of \<^verbatim>\<open>j2len\<close> are bounded by the runs of their row and their column.
\<close>

definition positions :: "pystr \<Rightarrow> nat \<Rightarrow> nat list" where
  "positions b elt = map fst (filter (\<lambda>(i, e). e = elt) (enumerate 0 b))"

definition unpopular :: "pystr \<Rightarrow> nat \<Rightarrow> bool" where
  "unpopular s r = (chain_b s (s ! r) \<noteq> None)"

fun run_length :: "pystr \<Rightarrow> nat \<Rightarrow> nat" where
  "run_length s 0 = (if unpopular s 0 then 1 else 0)"
| "run_length s (Suc r) = (if unpopular s (Suc r) then Suc (run_length s r) else 0)"

definition row_entries :: "pystr \<Rightarrow> nat \<Rightarrow> (nat \<rightharpoonup> nat) \<Rightarrow> bool" where
  "row_entries s r m =
     (\<forall>j v. m j = Some v \<longrightarrow>
        j < length s \<and> 1 \<le> v \<and> v \<le> run_length s j \<and> v \<le> run_length s r)"

definition prev_ok :: "pystr \<Rightarrow> nat \<Rightarrow> (nat \<rightharpoonup> nat) \<Rightarrow> bool" where
  "prev_ok s r m =
     (case r of
        0 \<Rightarrow> m = Map.empty
      | Suc r' \<Rightarrow> row_entries s r' m \<and> (unpopular s r' \<longrightarrow> m r' = Some (run_length s r')))"

definition diag_inv :: "pystr \<Rightarrow> nat \<Rightarrow> match \<times> (nat \<rightharpoonup> nat) \<Rightarrow> bool" where
  "diag_inv s r st =
     (case st of
        ((besti, bestj, bestsize), m) \<Rightarrow>
          besti = bestj \<and> (\<forall>r'<r. run_length s r' \<le> bestsize) \<and> prev_ok s r m)"

definition cell :: "(nat \<rightharpoonup> nat) \<Rightarrow> nat \<Rightarrow> nat" where
  "cell j2len j = (if j = 0 then 0 else (case j2len (j - 1) of None \<Rightarrow> 0 | Some v \<Rightarrow> v)) + 1"

section \<open>Normalisation\<close>

lemma lower_cp_idem: "lower_cp (lower_cp c) = lower_cp c"
  by (simp add: lower_cp_def)

lemma lower_cp_ascii: "c < 128 \<Longrightarrow> lower_cp c < 128"
  by (simp add: lower_cp_def)

lemma isspace_32: "py_isspace 32"
  by (simp add: py_isspace_def)

lemma collapsed_re_sub_spaces: "collapsed (re_sub_spaces s)"
proof (induction s rule: re_sub_spaces.induct)
  case 1
  show ?case by simp
next
  case (2 c cs)
  show ?case
  proof (cases "py_isspace c")
    case True
    define r where "r = dropWhile py_isspace cs"
    have eq: "re_sub_spaces (c # cs) = 32 # re_sub_spaces r"
      using True by (simp add: r_def)
    have ih: "collapsed (re_sub_spaces r)" using 2(1) True by (simp add: r_def)
    show ?thesis
    proof (cases r)
      case Nil
      then show ?thesis unfolding eq by (simp add: isspace_32)
    next
      case (Cons d ds)
      have "r \<noteq> [] \<Longrightarrow> \<not> py_isspace (hd r)"
        unfolding r_def by (rule hd_dropWhile)
      then have nd: "\<not> py_isspace d" using Cons by simp
      show ?thesis unfolding eq using ih nd by (simp add: Cons)
    qed
  next
    case False
    have ih: "collapsed (re_sub_spaces cs)" using 2(2) False by simp
    show ?thesis
    proof (cases "re_sub_spaces cs")
      case Nil
      with False show ?thesis by simp
    next
      case (Cons e es)
      with False ih show ?thesis by simp
    qed
  qed
qed

lemma re_sub_spaces_collapsed: "collapsed s \<Longrightarrow> re_sub_spaces s = s"
proof (induction s rule: collapsed.induct)
  case 1
  show ?case by simp
next
  case (2 c)
  then show ?case by auto
next
  case (3 c d cs)
  then show ?case by auto
qed

lemma collapsed_append: "collapsed (xs @ ys) \<Longrightarrow> collapsed xs \<and> collapsed ys"
proof (induction xs rule: collapsed.induct)
  case 1
  then show ?case by simp
next
  case (2 c)
  then show ?case by (cases ys) auto
next
  case (3 c d cs)
  then show ?case by auto
qed

lemma collapsed_dropWhile: "collapsed s \<Longrightarrow> collapsed (dropWhile P s)"
  using collapsed_append [of "takeWhile P s" "dropWhile P s"] by simp

lemma strip_suffix_split:
  "rev (dropWhile P (rev u)) @ rev (takeWhile P (rev u)) = u"
proof -
  have "rev (takeWhile P (rev u) @ dropWhile P (rev u)) = u" by simp
  then show ?thesis by (simp only: rev_append)
qed

lemma collapsed_strip: "collapsed s \<Longrightarrow> collapsed (py_strip s)"
proof -
  assume c: "collapsed s"
  let ?u = "dropWhile py_isspace s"
  have cu: "collapsed ?u" using c by (rule collapsed_dropWhile)
  have "collapsed (rev (dropWhile py_isspace (rev ?u)) @ rev (takeWhile py_isspace (rev ?u)))"
    using cu by (simp only: strip_suffix_split)
  then show ?thesis unfolding py_strip_def by (auto dest: collapsed_append)
qed

lemma py_strip_idem: "py_strip (py_strip s) = py_strip s"
proof -
  define u where "u = dropWhile py_isspace s"
  define v where "v = rev (dropWhile py_isspace (rev u))"
  have split: "v @ rev (takeWhile py_isspace (rev u)) = u"
    unfolding v_def by (rule strip_suffix_split)
  have dv: "dropWhile py_isspace v = v"
  proof (cases v)
    case Nil
    then show ?thesis by simp
  next
    case (Cons a as)
    then have "u \<noteq> []" using split by auto
    then have "\<not> py_isspace (hd u)" unfolding u_def by (rule hd_dropWhile)
    moreover have "hd u = a" using Cons split by (metis append_Cons list.sel(1))
    ultimately show ?thesis using Cons by simp
  qed
  have rv: "rev (dropWhile py_isspace (rev v)) = v"
    unfolding v_def by simp
  have "py_strip s = v" by (simp add: py_strip_def u_def v_def)
  moreover have "py_strip v = v" by (simp add: py_strip_def dv rv)
  ultimately show ?thesis by simp
qed

lemma set_re_sub_spaces: "set (re_sub_spaces s) \<subseteq> insert 32 (set s)"
proof (induction s rule: re_sub_spaces.induct)
  case 1
  show ?case by simp
next
  case (2 c cs)
  then show ?case by (auto dest: set_dropWhileD)
qed

lemma set_py_strip: "set (py_strip s) \<subseteq> set s"
proof
  fix x
  assume "x \<in> set (py_strip s)"
  then have "x \<in> set (dropWhile py_isspace (rev (dropWhile py_isspace s)))"
    by (simp add: py_strip_def)
  then have "x \<in> set (rev (dropWhile py_isspace s))" by (rule set_dropWhileD)
  then have "x \<in> set (dropWhile py_isspace s)" by simp
  then show "x \<in> set s" by (rule set_dropWhileD)
qed

lemma unidecode_ascii_id: "\<forall>c\<in>set s. c < 128 \<Longrightarrow> unidecode tbl s = s"
  unfolding unidecode_def by (induction s) auto

lemma unidecode_ascii: "ascii_table tbl \<Longrightarrow> \<forall>c\<in>set (unidecode tbl s). c < 128"
  unfolding unidecode_def ascii_table_def by (auto simp: list_all_iff)

lemma py_lower_fixed: "\<forall>c\<in>set s. lower_cp c = c \<Longrightarrow> py_lower s = s"
  unfolding py_lower_def by (induction s) auto

lemma normalize_text_fixed:
  assumes "ascii_table tbl"
  shows "normalize_text tbl (Some (normalize_text tbl x)) = normalize_text tbl x"
proof (cases x)
  case None
  then show ?thesis by (simp add: normalize_text_def)
next
  case (Some t)
  show ?thesis
  proof (cases "t = []")
    case True
    with Some show ?thesis by (simp add: normalize_text_def)
  next
    case False
    let ?l = "py_lower (unidecode tbl t)"
    let ?n = "py_strip (re_sub_spaces ?l)"
    have n: "normalize_text tbl x = ?n" using Some False by (simp add: normalize_text_def)
    have sub: "set ?n \<subseteq> insert 32 (set ?l)"
      using set_py_strip [of "re_sub_spaces ?l"] set_re_sub_spaces [of ?l] by blast
    have asc: "\<forall>c\<in>set ?n. c < 128"
      using sub unidecode_ascii [OF assms, of t]
      by (auto simp: py_lower_def lower_cp_ascii)
    have low: "\<forall>c\<in>set ?n. lower_cp c = c"
    proof
      fix c
      assume "c \<in> set ?n"
      with sub have "c = 32 \<or> c \<in> set ?l" by auto
      then show "lower_cp c = c"
      proof
        assume "c = 32"
        then show ?thesis by (simp add: lower_cp_def)
      next
        assume "c \<in> set ?l"
        then obtain d where "c = lower_cp d" by (auto simp: py_lower_def)
        then show ?thesis by (simp add: lower_cp_idem)
      qed
    qed
    have col: "collapsed ?n"
      by (rule collapsed_strip) (rule collapsed_re_sub_spaces)
    have "py_strip (re_sub_spaces (py_lower (unidecode tbl ?n))) = ?n"
      by (simp add: unidecode_ascii_id [OF asc] py_lower_fixed [OF low]
          re_sub_spaces_collapsed [OF col] py_strip_idem)
    then show ?thesis using Some False by (simp add: normalize_text_def)
  qed
qed


lemma ascii_table_unidecode_latin: "ascii_table unidecode_latin"
  by (simp add: ascii_table_def unidecode_latin_def lit_def)

text \<open>
  Claim C8. \<open>normalize_text\<close> is idempotent; \<^verbatim>\<open>None\<close> and the empty string give the
  empty string; case and accent variants have one normal form: lowering the case of an
  ASCII string does not change its normal form, and \<^verbatim>\<open>"Cancion"\<close> written with an
  acute accent on its second o normalises to the same string as \<^verbatim>\<open>"cancion"\<close>. The transliteration table is any table
  with ASCII replacements that sends code point 243 (o with acute accent) to \<^verbatim>\<open>"o"\<close>,
  as the table of unidecode does.
\<close>

theorem normalize_text_idempotent:
  assumes "ascii_table tbl" and "tbl 243 = lit ''o''"
  shows "normalize_text tbl (Some (normalize_text tbl x)) = normalize_text tbl x \<and>
         normalize_text tbl None = [] \<and>
         normalize_text tbl (Some []) = [] \<and>
         ((\<forall>c\<in>set s. c < 128) \<longrightarrow>
            normalize_text tbl (Some (py_lower s)) = normalize_text tbl (Some s)) \<and>
         normalize_text tbl (Some (lit ''Canci'' @ [243] @ lit ''n'')) =
           normalize_text tbl (Some (lit ''cancion''))"
proof -
  have idem: "normalize_text tbl (Some (normalize_text tbl x)) = normalize_text tbl x"
    using assms(1) by (rule normalize_text_fixed)
  have empty: "normalize_text tbl None = []" "normalize_text tbl (Some []) = []"
    by (simp_all add: normalize_text_def)
  have "case": "normalize_text tbl (Some (py_lower s)) = normalize_text tbl (Some s)"
    if asc: "\<forall>c\<in>set s. c < 128"
  proof -
    have "\<forall>c\<in>set (py_lower s). c < 128"
      using asc by (auto simp: py_lower_def lower_cp_ascii)
    then have "unidecode tbl (py_lower s) = py_lower s" by (rule unidecode_ascii_id)
    moreover have "unidecode tbl s = s" using asc by (rule unidecode_ascii_id)
    moreover have "py_lower (py_lower s) = py_lower s"
      by (simp add: py_lower_def lower_cp_idem)
    moreover have "py_lower s = [] \<longleftrightarrow> s = []" by (simp add: py_lower_def)
    ultimately show ?thesis by (simp add: normalize_text_def)
  qed
  have accent: "normalize_text tbl (Some (lit ''Canci'' @ [243] @ lit ''n'')) =
      normalize_text tbl (Some (lit ''cancion''))"
    using assms(2)
    by (simp add: normalize_text_def unidecode_def py_lower_def lower_cp_def lit_def
        py_strip_def py_isspace_def)
  from idem empty "case" accent show ?thesis by blast
qed

theorem normalize_text_idempotent_witness:
  "ascii_table unidecode_latin \<and> unidecode_latin 243 = lit ''o'' \<and>
   normalize_text unidecode_latin (Some (lit ''  El   Ni'' @ [241] @ lit ''o '')) =
     lit ''el nino'' \<and>
   normalize_text unidecode_latin (Some (lit ''el nino'')) = lit ''el nino'' \<and>
   normalize_text unidecode_latin (Some (py_lower (lit ''MATRIX''))) =
     normalize_text unidecode_latin (Some (lit ''MATRIX'')) \<and>
   normalize_text unidecode_latin (Some (lit ''Canci'' @ [243] @ lit ''n'')) = lit ''cancion''"
proof -
  have t: "ascii_table unidecode_latin" by (rule ascii_table_unidecode_latin)
  have o: "unidecode_latin 243 = lit ''o''" by (simp add: unidecode_latin_def)
  have n: "normalize_text unidecode_latin (Some (lit ''  El   Ni'' @ [241] @ lit ''o '')) =
      lit ''el nino''"
    by (simp add: normalize_text_def unidecode_def unidecode_latin_def py_lower_def
        lower_cp_def lit_def py_strip_def py_isspace_def)
  have a: "\<forall>c\<in>set (lit ''MATRIX''). c < 128" by (simp add: lit_def)
  have c: "normalize_text unidecode_latin (Some (lit ''cancion'')) = lit ''cancion''"
    by (simp add: normalize_text_def unidecode_def unidecode_latin_def py_lower_def
        lower_cp_def lit_def py_strip_def py_isspace_def)
  from normalize_text_idempotent [OF t o,
      of "Some (lit ''  El   Ni'' @ [241] @ lit ''o '')" "lit ''MATRIX''"]
  show ?thesis using t o n a c by simp
qed

section \<open>Edit distance\<close>

text \<open>
  Claim C1. The claim says the distance is zero exactly when the normal forms agree and
  that it obeys the triangle inequality. The two guards of \<open>levenshtein_distance\<close> return
  the raw length of the other argument, while every other path compares normal forms:
  the distance from the empty string to a single space is 1 although both normalise to
  the empty string, and the distance from the empty string to \<^verbatim>\<open>"x   "\<close> is 4, more
  than the 1 to \<^verbatim>\<open>"x"\<close> plus the 0 from \<^verbatim>\<open>"x"\<close> to \<^verbatim>\<open>"x   "\<close>.
\<close>

theorem levenshtein_distance_guard_raw_length:
  "levenshtein_distance tbl [] (lit '' '') = 1 \<and>
   normalize_text tbl (Some []) = normalize_text tbl (Some (lit '' '')) \<and>
   levenshtein_distance tbl (lit '' '') (lit '' '') = 0 \<and>
   levenshtein_distance tbl [] (lit ''x   '') = 4 \<and>
   levenshtein_distance tbl [] (lit ''x'') = 1 \<and>
   levenshtein_distance tbl (lit ''x'') (lit ''x   '') = 0"
proof -
  have e: "normalize_text tbl (Some []) = []"
    by (simp add: normalize_text_def)
  have sp: "normalize_text tbl (Some [32]) = []"
    by (simp add: normalize_text_def unidecode_def py_lower_def lower_cp_def
        py_strip_def py_isspace_def)
  have x: "normalize_text tbl (Some [120]) = [120]"
    by (simp add: normalize_text_def unidecode_def py_lower_def lower_cp_def
        py_strip_def py_isspace_def)
  have xs: "normalize_text tbl (Some [120, 32, 32, 32]) = [120]"
    by (simp add: normalize_text_def unidecode_def py_lower_def lower_cp_def
        py_strip_def py_isspace_def)
  have t0: "lev_table [] [] = [[0]]"
    by (simp add: lev_table_def)
  have t1: "lev_table [120] [120] = [[0, 1], [1, 0]]"
    by (simp add: lev_table_def lev_cell_def set2_def)
  show ?thesis
    by (simp add: levenshtein_distance_def lit_def e sp x xs t0 t1)
qed

section \<open>The request handlers\<close>

lemma lit_simps:
  "lit ''meta'' \<noteq> lit ''cacheMaxAge''" "lit ''streams'' \<noteq> lit ''cacheMaxAge''"
  by (simp_all add: lit_def)

lemma get_metadata_no_id:
  "req_id request = None \<or> req_id request = Some [] \<Longrightarrow>
   get_metadata fetch h request = (Returned [(lit ''meta'', JDict [])], h)"
  by (auto simp: get_metadata_def Let_def)

lemma get_streams_no_id:
  "req_id request = None \<or> req_id request = Some [] \<Longrightarrow>
   get_streams fetch h request = (Returned [(lit ''streams'', JList [])], h)"
  by (auto simp: get_streams_def Let_def)

lemma get_metadata_hit:
  "req_id request = Some cid \<Longrightarrow> cid \<noteq> [] \<Longrightarrow>
   cache h (metadata_cache_key (request_type request) cid) = Some v \<Longrightarrow>
   get_metadata fetch h request = (Returned [(lit ''meta'', v)], h)"
  by (simp add: get_metadata_def Let_def)

lemma get_streams_hit:
  "req_id request = Some cid \<Longrightarrow> cid \<noteq> [] \<Longrightarrow>
   cache h (stream_cache_key (request_type request) cid (req_season request)
     (req_episode request)) = Some v \<Longrightarrow>
   get_streams fetch h request = (Returned [(lit ''streams'', v)], h)"
  by (simp add: get_streams_def Let_def)

lemma get_metadata_miss:
  "req_id request = Some cid \<Longrightarrow> cid \<noteq> [] \<Longrightarrow>
   cache h (metadata_cache_key (request_type request) cid) = None \<Longrightarrow>
   get_metadata fetch h request =
     (case fetch cid (request_type request) of
        Raised e \<Rightarrow> (Raised e, log_fetch h (cid, request_type request, None, None))
      | Returned meta \<Rightarrow>
          (Returned [(lit ''meta'', JDict meta), (lit ''cacheMaxAge'', JInt 604800)],
           if meta \<noteq> []
           then cache_put (log_fetch h (cid, request_type request, None, None))
                  (metadata_cache_key (request_type request) cid) (JDict meta)
           else log_fetch h (cid, request_type request, None, None)))"
  by (simp add: get_metadata_def Let_def)

lemma get_streams_miss:
  "req_id request = Some cid \<Longrightarrow> cid \<noteq> [] \<Longrightarrow>
   cache h (stream_cache_key (request_type request) cid (req_season request)
     (req_episode request)) = None \<Longrightarrow>
   get_streams fetch h request =
     (case fetch cid (request_type request) (req_season request) (req_episode request) of
        Raised e \<Rightarrow>
          (Raised e,
           log_fetch h (cid, request_type request, req_season request, req_episode request))
      | Returned streams \<Rightarrow>
          (Returned [(lit ''streams'', JList (map JDict streams)),
                     (lit ''cacheMaxAge'', JInt 3600)],
           if streams \<noteq> []
           then cache_put
                  (log_fetch h
                     (cid, request_type request, req_season request, req_episode request))
                  (stream_cache_key (request_type request) cid (req_season request)
                     (req_episode request))
                  (JList (map JDict streams))
           else log_fetch h
                  (cid, request_type request, req_season request, req_episode request)))"
  by (simp add: get_streams_def Let_def)


lemma get_metadata_returns:
  "fst (get_metadata fetch h request) = Raised e \<Longrightarrow>
   \<exists>cid. req_id request = Some cid \<and> fetch cid (request_type request) = Raised e"
  by (auto simp: get_metadata_def Let_def split: option.splits if_splits outcome.splits)

lemma get_streams_returns:
  "fst (get_streams fetch h request) = Raised e \<Longrightarrow>
   \<exists>cid. req_id request = Some cid \<and>
     fetch cid (request_type request) (req_season request) (req_episode request) = Raised e"
  by (auto simp: get_streams_def Let_def split: option.splits if_splits outcome.splits)

lemma cache_log_fetch: "cache (log_fetch h c) = cache h"
  by (simp add: log_fetch_def)

lemma cache_cache_put: "cache (cache_put h k v) = (cache h)(k \<mapsto> v)"
  by (simp add: cache_put_def)

lemma fetches_log_fetch: "fetches (log_fetch h c) = fetches h @ [c]"
  by (simp add: log_fetch_def)

lemma fetches_cache_put: "fetches (cache_put h k v) = fetches h"
  by (simp add: cache_put_def)

lemma stream_cache_key_no_season:
  "stream_cache_key content_type content_id None episode = content_type @ lit '':'' @ content_id"
  by (simp add: stream_cache_key_def)

text \<open>
  A run of requests: serving a run and then another is serving the two in a row; an
  entry that is in the cache stays there whatever is requested, because the only write
  is at a key that was absent; hence a request that hits on such an entry still hits,
  with the same response, after any run of other requests.
\<close>

lemma serve_append:
  "serve entry h (rs @ rs') =
     (fst (serve entry h rs) @ fst (serve entry (snd (serve entry h rs)) rs'),
      snd (serve entry (snd (serve entry h rs)) rs'))"
proof (induction rs arbitrary: h)
  case Nil
  show ?case by simp
next
  case (Cons r rs)
  obtain arrival request where r: "r = (arrival, request)" by (cases r)
  obtain response h1 where e: "entry h request = (response, h1)" by (cases "entry h request")
  show ?case
    using Cons [of h1] by (simp add: r e split: prod.splits)
qed

lemma get_metadata_keeps:
  "cache h k = Some v \<Longrightarrow> cache (snd (get_metadata fetch h request)) k = Some v"
  by (auto simp: get_metadata_def Let_def cache_log_fetch cache_cache_put
      split: option.splits outcome.splits)

lemma get_streams_keeps:
  "cache h k = Some v \<Longrightarrow> cache (snd (get_streams fetch h request)) k = Some v"
  by (auto simp: get_streams_def Let_def cache_log_fetch cache_cache_put
      split: option.splits outcome.splits)

lemma handle_metadata_snd:
  "snd (handle_metadata fetch h request) = snd (get_metadata fetch h request)"
  by (simp add: handle_metadata_def split: prod.splits outcome.splits)

lemma handle_stream_snd:
  "snd (handle_stream fetch h request) = snd (get_streams fetch h request)"
  by (simp add: handle_stream_def split: prod.splits outcome.splits)

lemma serve_keeps:
  assumes step: "\<And>h request. cache h k = Some v \<Longrightarrow> cache (snd (entry h request)) k = Some v"
  shows "cache h k = Some v \<Longrightarrow> cache (snd (serve entry h rs)) k = Some v"
proof (induction rs arbitrary: h)
  case Nil
  then show ?case by simp
next
  case (Cons r rs)
  obtain arrival request where r: "r = (arrival, request)" by (cases r)
  obtain response h1 where e: "entry h request = (response, h1)" by (cases "entry h request")
  have "cache h1 k = Some v" using step [OF Cons.prems, of request] by (simp add: e)
  then have "cache (snd (serve entry h1 rs)) k = Some v" by (rule Cons.IH)
  then show ?case by (auto simp: r e split: prod.splits)
qed

lemma hit_after:
  assumes hit: "\<And>h. cache h k = Some v \<Longrightarrow> entry h request = (response, h)"
    and step: "\<And>h request. cache h k = Some v \<Longrightarrow> cache (snd (entry h request)) k = Some v"
    and present: "cache h k = Some v"
  shows "serve entry h (requests @ [(t, request)]) =
     (fst (serve entry h requests) @ [response], snd (serve entry h requests))"
proof -
  have "cache (snd (serve entry h requests)) k = Some v"
    using step present by (rule serve_keeps)
  then have "entry (snd (serve entry h requests)) request =
      (response, snd (serve entry h requests))"
    by (rule hit)
  then show ?thesis by (simp add: serve_append)
qed


lemma clear_cache_simps:
  "cache (clear_cache h) = Map.empty" "fetches (clear_cache h) = fetches h"
  by (simp_all add: clear_cache_def)

text \<open>
  Claim C4. The claim says that an unrecognised kind or a missing identifier is surfaced
  as a typed rejection and not turned into a default empty envelope. The code does the
  opposite: a request without identifier is answered with \<^verbatim>\<open>{"meta": {}}\<close>, respectively
  \<^verbatim>\<open>{"streams": []}\<close>, and a request of the unknown kind \<^verbatim>\<open>"banana"\<close> is served like any
  other.
\<close>

theorem missing_id_default_envelope_counterexample:
  "get_metadata fetch_metadata new_handler
     \<lparr>req_id = None, req_type = Some (lit ''movie''), req_season = None, req_episode = None\<rparr> =
     (Returned [(lit ''meta'', JDict [])], new_handler) \<and>
   get_streams fetch_streams new_handler
     \<lparr>req_id = None, req_type = Some (lit ''movie''), req_season = None, req_episode = None\<rparr> =
     (Returned [(lit ''streams'', JList [])], new_handler) \<and>
   fst (get_streams fetch_streams new_handler
     \<lparr>req_id = Some (lit ''x''), req_type = Some (lit ''banana''), req_season = None,
       req_episode = None\<rparr>) =
     Returned [(lit ''streams'', JList []), (lit ''cacheMaxAge'', JInt 3600)]"
  by (simp add: get_metadata_def get_streams_def fetch_streams_def request_type_def Let_def
      stream_cache_key_def new_handler_def lit_def)

text \<open>
  Claim C4, as the code has it. A missing or empty identifier is answered with the
  default empty envelope and the handler is left as it was (no fetch, no cache write),
  by \<open>get_metadata\<close> and \<open>get_streams\<close> and by \<open>handle_metadata\<close> and \<open>handle_stream\<close>
  alike. The kind is never checked: whatever string the request gives as its kind is
  the kind of the request (\<^verbatim>\<open>"movie"\<close> when it gives none), and a request with an
  identifier is served with that kind put verbatim into the cache key and passed to the
  fetch: a hit returns the entry under that key, a miss calls the fetch with the
  identifier and that kind and returns what it gives. \<open>get_metadata\<close> and
  \<open>get_streams\<close> raise only when their fetch raises, with the fetch logged and the cache
  unchanged; \<open>handle_metadata\<close> and \<open>handle_stream\<close> then answer with the default empty
  envelope, and otherwise answer as \<open>get_metadata\<close> and \<open>get_streams\<close> do. So the
  request layer never sees a rejection.
\<close>

theorem invalid_request_not_rejected:
  "((req_id request = None \<or> req_id request = Some []) \<longrightarrow>
      get_metadata fetch_m h request = (Returned [(lit ''meta'', JDict [])], h) \<and>
      get_streams fetch_s h request = (Returned [(lit ''streams'', JList [])], h) \<and>
      handle_metadata fetch_m h request = (Returned [(lit ''meta'', JDict [])], h) \<and>
      handle_stream fetch_s h request = (Returned [(lit ''streams'', JList [])], h)) \<and>
   (\<forall>kind. req_type request = Some kind \<longrightarrow> request_type request = kind) \<and>
   (req_type request = None \<longrightarrow> request_type request = lit ''movie'') \<and>
   (req_id request = Some cid \<and> cid \<noteq> [] \<longrightarrow>
      get_metadata fetch_m h request =
        (case cache h (request_type request @ lit '':'' @ cid) of
           Some v \<Rightarrow> (Returned [(lit ''meta'', v)], h)
         | None \<Rightarrow>
             (case fetch_m cid (request_type request) of
                Raised e \<Rightarrow> (Raised e, log_fetch h (cid, request_type request, None, None))
              | Returned meta \<Rightarrow>
                  (Returned [(lit ''meta'', JDict meta), (lit ''cacheMaxAge'', JInt 604800)],
                   if meta \<noteq> []
                   then cache_put (log_fetch h (cid, request_type request, None, None))
                          (request_type request @ lit '':'' @ cid) (JDict meta)
                   else log_fetch h (cid, request_type request, None, None)))) \<and>
      get_streams fetch_s h request =
        (case cache h (stream_cache_key (request_type request) cid (req_season request)
                 (req_episode request)) of
           Some v \<Rightarrow> (Returned [(lit ''streams'', v)], h)
         | None \<Rightarrow>
             (case fetch_s cid (request_type request) (req_season request)
                     (req_episode request) of
                Raised e \<Rightarrow>
                  (Raised e,
                   log_fetch h
                     (cid, request_type request, req_season request, req_episode request))
              | Returned streams \<Rightarrow>
                  (Returned [(lit ''streams'', JList (map JDict streams)),
                             (lit ''cacheMaxAge'', JInt 3600)],
                   if streams \<noteq> []
                   then cache_put
                          (log_fetch h
                             (cid, request_type request, req_season request,
                              req_episode request))
                          (stream_cache_key (request_type request) cid (req_season request)
                             (req_episode request))
                          (JList (map JDict streams))
                   else log_fetch h
                          (cid, request_type request, req_season request,
                           req_episode request))))) \<and>
   (\<forall>e h1. get_metadata fetch_m h request = (Raised e, h1) \<longrightarrow>
      handle_metadata fetch_m h request = (Returned [(lit ''meta'', JDict [])], h1) \<and>
      cache h1 = cache h \<and>
      (\<exists>cid. req_id request = Some cid \<and> fetch_m cid (request_type request) = Raised e)) \<and>
   (\<forall>e h1. get_streams fetch_s h request = (Raised e, h1) \<longrightarrow>
      handle_stream fetch_s h request = (Returned [(lit ''streams'', JList [])], h1) \<and>
      cache h1 = cache h \<and>
      (\<exists>cid. req_id request = Some cid \<and>
         fetch_s cid (request_type request) (req_season request) (req_episode request) =
           Raised e)) \<and>
   (\<forall>r h1. get_metadata fetch_m h request = (Returned r, h1) \<longrightarrow>
      handle_metadata fetch_m h request = (Returned r, h1)) \<and>
   (\<forall>r h1. get_streams fetch_s h request = (Returned r, h1) \<longrightarrow>
      handle_stream fetch_s h request = (Returned r, h1))"
proof -
  have no_id: "get_metadata fetch_m h request = (Returned [(lit ''meta'', JDict [])], h) \<and>
      get_streams fetch_s h request = (Returned [(lit ''streams'', JList [])], h) \<and>
      handle_metadata fetch_m h request = (Returned [(lit ''meta'', JDict [])], h) \<and>
      handle_stream fetch_s h request = (Returned [(lit ''streams'', JList [])], h)"
    if "req_id request = None \<or> req_id request = Some []"
    using get_metadata_no_id [OF that, of fetch_m h] get_streams_no_id [OF that, of fetch_s h]
    by (simp add: handle_metadata_def handle_stream_def)
  have kind: "\<forall>kind. req_type request = Some kind \<longrightarrow> request_type request = kind"
    "req_type request = None \<longrightarrow> request_type request = lit ''movie''"
    by (simp_all add: request_type_def)
  have served: "get_metadata fetch_m h request =
        (case cache h (request_type request @ lit '':'' @ cid) of
           Some v \<Rightarrow> (Returned [(lit ''meta'', v)], h)
         | None \<Rightarrow>
             (case fetch_m cid (request_type request) of
                Raised e \<Rightarrow> (Raised e, log_fetch h (cid, request_type request, None, None))
              | Returned meta \<Rightarrow>
                  (Returned [(lit ''meta'', JDict meta), (lit ''cacheMaxAge'', JInt 604800)],
                   if meta \<noteq> []
                   then cache_put (log_fetch h (cid, request_type request, None, None))
                          (request_type request @ lit '':'' @ cid) (JDict meta)
                   else log_fetch h (cid, request_type request, None, None)))) \<and>
      get_streams fetch_s h request =
        (case cache h (stream_cache_key (request_type request) cid (req_season request)
                 (req_episode request)) of
           Some v \<Rightarrow> (Returned [(lit ''streams'', v)], h)
         | None \<Rightarrow>
             (case fetch_s cid (request_type request) (req_season request)
                     (req_episode request) of
                Raised e \<Rightarrow>
                  (Raised e,
                   log_fetch h
                     (cid, request_type request, req_season request, req_episode request))
              | Returned streams \<Rightarrow>
                  (Returned [(lit ''streams'', JList (map JDict streams)),
                             (lit ''cacheMaxAge'', JInt 3600)],
                   if streams \<noteq> []
                   then cache_put
                          (log_fetch h
                             (cid, request_type request, req_season request,
                              req_episode request))
                          (stream_cache_key (request_type request) cid (req_season request)
                             (req_episode request))
                          (JList (map JDict streams))
                   else log_fetch h
                          (cid, request_type request, req_season request,
                           req_episode request))))"
    if "req_id request = Some cid \<and> cid \<noteq> []"
    using that
    by (auto simp: get_metadata_def get_streams_def metadata_cache_key_def Let_def
        split: option.splits outcome.splits)
  have raised_m: "handle_metadata fetch_m h request = (Returned [(lit ''meta'', JDict [])], h1) \<and>
      cache h1 = cache h \<and>
      (\<exists>cid. req_id request = Some cid \<and> fetch_m cid (request_type request) = Raised e)"
    if r: "get_metadata fetch_m h request = (Raised e, h1)" for e h1
  proof -
    have "handle_metadata fetch_m h request = (Returned [(lit ''meta'', JDict [])], h1)"
      by (simp add: handle_metadata_def r)
    moreover have "cache h1 = cache h"
      using r
      by (auto simp: get_metadata_def Let_def cache_log_fetch
          split: option.splits if_splits outcome.splits)
    moreover have "\<exists>cid. req_id request = Some cid \<and> fetch_m cid (request_type request) = Raised e"
      using get_metadata_returns [of fetch_m h request e] r by simp
    ultimately show ?thesis by blast
  qed
  have raised_s: "handle_stream fetch_s h request = (Returned [(lit ''streams'', JList [])], h1) \<and>
      cache h1 = cache h \<and>
      (\<exists>cid. req_id request = Some cid \<and>
         fetch_s cid (request_type request) (req_season request) (req_episode request) =
           Raised e)"
    if r: "get_streams fetch_s h request = (Raised e, h1)" for e h1
  proof -
    have "handle_stream fetch_s h request = (Returned [(lit ''streams'', JList [])], h1)"
      by (simp add: handle_stream_def r)
    moreover have "cache h1 = cache h"
      using r
      by (auto simp: get_streams_def Let_def cache_log_fetch
          split: option.splits if_splits outcome.splits)
    moreover have "\<exists>cid. req_id request = Some cid \<and>
         fetch_s cid (request_type request) (req_season request) (req_episode request) =
           Raised e"
      using get_streams_returns [of fetch_s h request e] r by simp
    ultimately show ?thesis by blast
  qed
  have ret_m: "handle_metadata fetch_m h request = (Returned r, h1)"
    if "get_metadata fetch_m h request = (Returned r, h1)" for r h1
    using that by (simp add: handle_metadata_def)
  have ret_s: "handle_stream fetch_s h request = (Returned r, h1)"
    if "get_streams fetch_s h request = (Returned r, h1)" for r h1
    using that by (simp add: handle_stream_def)
  from no_id kind served raised_m raised_s ret_m ret_s show ?thesis by blast
qed

theorem invalid_request_not_rejected_witness:
  "get_metadata fetch_metadata new_handler
     \<lparr>req_id = Some [], req_type = Some (lit ''banana''), req_season = None,
       req_episode = None\<rparr> =
     (Returned [(lit ''meta'', JDict [])], new_handler) \<and>
   handle_stream fetch_streams new_handler
     \<lparr>req_id = None, req_type = Some (lit ''banana''), req_season = None,
       req_episode = None\<rparr> =
     (Returned [(lit ''streams'', JList [])], new_handler) \<and>
   get_metadata fetch_metadata new_handler
     \<lparr>req_id = Some (lit ''x''), req_type = Some (lit ''banana''), req_season = None,
       req_episode = None\<rparr> =
     (Returned [(lit ''meta'', JDict (metadata_skeleton (lit ''x'') (lit ''banana''))),
                (lit ''cacheMaxAge'', JInt 604800)],
      cache_put (log_fetch new_handler (lit ''x'', lit ''banana'', None, None))
        (lit ''banana:x'') (JDict (metadata_skeleton (lit ''x'') (lit ''banana'')))) \<and>
   get_streams (\<lambda>content_id content_type season episode. Raised (lit ''Timeout''))
      new_handler (movie_request (lit ''x'')) =
     (Raised (lit ''Timeout''), log_fetch new_handler (lit ''x'', lit ''movie'', None, None)) \<and>
   handle_stream (\<lambda>content_id content_type season episode. Raised (lit ''Timeout''))
      new_handler (movie_request (lit ''x'')) =
     (Returned [(lit ''streams'', JList [])],
      log_fetch new_handler (lit ''x'', lit ''movie'', None, None))"
proof -
  let ?empty = "\<lparr>req_id = Some [], req_type = Some (lit ''banana''), req_season = None,
       req_episode = None\<rparr>"
  let ?none = "\<lparr>req_id = None, req_type = Some (lit ''banana''), req_season = None,
       req_episode = None\<rparr>"
  let ?banana = "\<lparr>req_id = Some (lit ''x''), req_type = Some (lit ''banana''),
       req_season = None, req_episode = None\<rparr>"
  let ?timeout = "\<lambda>content_id content_type season episode. Raised (lit ''Timeout'')"
  have ne: "lit ''x'' \<noteq> []" by (simp add: lit_def)
  have first: "get_metadata fetch_metadata new_handler ?empty =
      (Returned [(lit ''meta'', JDict [])], new_handler)"
    by (rule invalid_request_not_rejected
        [where request = ?empty, THEN conjunct1, THEN mp, THEN conjunct1]) simp
  have second: "handle_stream fetch_streams new_handler ?none =
      (Returned [(lit ''streams'', JList [])], new_handler)"
    by (rule invalid_request_not_rejected
        [where request = ?none, THEN conjunct1, THEN mp, THEN conjunct2, THEN conjunct2,
         THEN conjunct2]) simp
  have third: "get_metadata fetch_metadata new_handler ?banana =
     (Returned [(lit ''meta'', JDict (metadata_skeleton (lit ''x'') (lit ''banana''))),
                (lit ''cacheMaxAge'', JInt 604800)],
      cache_put (log_fetch new_handler (lit ''x'', lit ''banana'', None, None))
        (lit ''banana:x'') (JDict (metadata_skeleton (lit ''x'') (lit ''banana''))))"
    using invalid_request_not_rejected
      [where request = ?banana and cid = "lit ''x''" and fetch_m = fetch_metadata
         and h = new_handler, THEN conjunct2, THEN conjunct2, THEN conjunct2,
       THEN conjunct1, THEN mp, THEN conjunct1] ne
    by (simp add: request_type_def fetch_metadata_def metadata_skeleton_def new_handler_def
        lit_def)
  have fourth: "get_streams ?timeout new_handler (movie_request (lit ''x'')) =
     (Raised (lit ''Timeout''), log_fetch new_handler (lit ''x'', lit ''movie'', None, None))"
    using invalid_request_not_rejected
      [where request = "movie_request (lit ''x'')" and cid = "lit ''x''"
         and fetch_s = ?timeout and h = new_handler, THEN conjunct2, THEN conjunct2,
       THEN conjunct2, THEN conjunct1, THEN mp, THEN conjunct2] ne
    by (simp add: request_type_def movie_request_def stream_cache_key_def new_handler_def
        lit_def)
  have fifth: "handle_stream ?timeout new_handler (movie_request (lit ''x'')) =
     (Returned [(lit ''streams'', JList [])],
      log_fetch new_handler (lit ''x'', lit ''movie'', None, None))"
    by (rule invalid_request_not_rejected
        [where request = "movie_request (lit ''x'')" and fetch_s = ?timeout
           and h = new_handler, THEN conjunct2, THEN conjunct2, THEN conjunct2,
         THEN conjunct2, THEN conjunct2, THEN conjunct1, THEN spec, THEN spec, THEN mp,
         THEN conjunct1, OF fourth])
  from first second third fourth fifth show ?thesis by (intro conjI)
qed

text \<open>
  Claim C5. \<open>get_streams\<close> writes its cache only when the fetched list is non-empty.
  When a request misses the cache and its fetch returns the empty list, the response is
  the empty list with the hint \<^verbatim>\<open>cacheMaxAge\<close>, the cache is unchanged, and the next call
  with the same request calls the fetch again (the log of fetches grows by a second
  entry) and returns what that fetch gives. Whenever a call changes the cache, its fetch
  returned a non-empty list and that list is what was stored under the request's key.
\<close>

theorem empty_streams_not_cached:
  "(req_id request = Some cid \<and> cid \<noteq> [] \<and>
    cache h (stream_cache_key (request_type request) cid (req_season request)
      (req_episode request)) = None \<and>
    fetch cid (request_type request) (req_season request) (req_episode request) = Returned []
    \<longrightarrow>
      get_streams fetch h request =
        (Returned [(lit ''streams'', JList []), (lit ''cacheMaxAge'', JInt 3600)],
         log_fetch h (cid, request_type request, req_season request, req_episode request)) \<and>
      cache (snd (get_streams fetch h request)) = cache h \<and>
      fetches (snd (get_streams fetch2 (snd (get_streams fetch h request)) request)) =
        fetches h @ [(cid, request_type request, req_season request, req_episode request),
                     (cid, request_type request, req_season request, req_episode request)] \<and>
      fst (get_streams fetch2 (snd (get_streams fetch h request)) request) =
        (case fetch2 cid (request_type request) (req_season request) (req_episode request) of
           Raised e \<Rightarrow> Raised e
         | Returned streams \<Rightarrow>
             Returned [(lit ''streams'', JList (map JDict streams)),
                       (lit ''cacheMaxAge'', JInt 3600)])) \<and>
   (cache (snd (get_streams fetch h request)) \<noteq> cache h \<longrightarrow>
      (\<exists>cid streams. req_id request = Some cid \<and> streams \<noteq> [] \<and>
         fetch cid (request_type request) (req_season request) (req_episode request) =
           Returned streams \<and>
         cache (snd (get_streams fetch h request)) =
           (cache h)(stream_cache_key (request_type request) cid (req_season request)
             (req_episode request) \<mapsto> JList (map JDict streams))))"
proof -
  let ?key = "\<lambda>cid. stream_cache_key (request_type request) cid (req_season request)
      (req_episode request)"
  let ?call = "\<lambda>cid. (cid, request_type request, req_season request, req_episode request)"
  have a: "get_streams fetch h request =
        (Returned [(lit ''streams'', JList []), (lit ''cacheMaxAge'', JInt 3600)],
         log_fetch h (?call cid)) \<and>
      cache (snd (get_streams fetch h request)) = cache h \<and>
      fetches (snd (get_streams fetch2 (snd (get_streams fetch h request)) request)) =
        fetches h @ [?call cid, ?call cid] \<and>
      fst (get_streams fetch2 (snd (get_streams fetch h request)) request) =
        (case fetch2 cid (request_type request) (req_season request) (req_episode request) of
           Raised e \<Rightarrow> Raised e
         | Returned streams \<Rightarrow>
             Returned [(lit ''streams'', JList (map JDict streams)),
                       (lit ''cacheMaxAge'', JInt 3600)])"
    if id: "req_id request = Some cid" "cid \<noteq> []"
      and miss: "cache h (?key cid) = None"
      and empty: "fetch cid (request_type request) (req_season request) (req_episode request) =
        Returned []"
  proof -
    let ?h1 = "log_fetch h (?call cid)"
    have first: "get_streams fetch h request =
        (Returned [(lit ''streams'', JList []), (lit ''cacheMaxAge'', JInt 3600)], ?h1)"
      using get_streams_miss [of request cid h fetch] id miss empty by simp
    have miss1: "cache ?h1 (?key cid) = None"
      using miss by (simp add: cache_log_fetch)
    have second: "get_streams fetch2 ?h1 request =
        (case fetch2 cid (request_type request) (req_season request) (req_episode request) of
           Raised e \<Rightarrow> (Raised e, log_fetch ?h1 (?call cid))
         | Returned streams \<Rightarrow>
             (Returned [(lit ''streams'', JList (map JDict streams)),
                        (lit ''cacheMaxAge'', JInt 3600)],
              if streams \<noteq> []
              then cache_put (log_fetch ?h1 (?call cid)) (?key cid) (JList (map JDict streams))
              else log_fetch ?h1 (?call cid)))"
      using get_streams_miss [of request cid ?h1 fetch2] id miss1 by simp
    show ?thesis
      by (simp add: first second cache_log_fetch fetches_log_fetch fetches_cache_put
          split: outcome.splits)
  qed
  have b: "\<exists>cid streams. req_id request = Some cid \<and> streams \<noteq> [] \<and>
         fetch cid (request_type request) (req_season request) (req_episode request) =
           Returned streams \<and>
         cache (snd (get_streams fetch h request)) =
           (cache h)(?key cid \<mapsto> JList (map JDict streams))"
    if "cache (snd (get_streams fetch h request)) \<noteq> cache h"
    using that
    by (auto simp: get_streams_def Let_def cache_log_fetch cache_cache_put
        split: option.splits if_splits outcome.splits)
  from a b show ?thesis by blast
qed

theorem empty_streams_not_cached_witness:
  "cache new_handler (stream_cache_key (lit ''movie'') (lit ''x'') None None) = None \<and>
   fetch_streams (lit ''x'') (lit ''movie'') None None = Returned [] \<and>
   get_streams fetch_streams new_handler (movie_request (lit ''x'')) =
     (Returned [(lit ''streams'', JList []), (lit ''cacheMaxAge'', JInt 3600)],
      log_fetch new_handler (lit ''x'', lit ''movie'', None, None)) \<and>
   cache (snd (get_streams fetch_streams new_handler (movie_request (lit ''x'')))) =
     cache new_handler \<and>
   fetches (snd (get_streams one_stream
       (snd (get_streams fetch_streams new_handler (movie_request (lit ''x''))))
       (movie_request (lit ''x'')))) =
     [(lit ''x'', lit ''movie'', None, None), (lit ''x'', lit ''movie'', None, None)] \<and>
   fst (get_streams one_stream
       (snd (get_streams fetch_streams new_handler (movie_request (lit ''x''))))
       (movie_request (lit ''x''))) =
     Returned [(lit ''streams'',
                JList [JDict [(lit ''url'', JStr (lit ''https://cuevana.pro/v/1''))]]),
               (lit ''cacheMaxAge'', JInt 3600)]"
proof -
  let ?r = "movie_request (lit ''x'')"
  have t: "request_type ?r = lit ''movie''" "req_season ?r = None" "req_episode ?r = None"
    "req_id ?r = Some (lit ''x'')"
    by (simp_all add: request_type_def movie_request_def)
  have h: "lit ''x'' \<noteq> []" "fetches new_handler = []"
    "cache new_handler (stream_cache_key (lit ''movie'') (lit ''x'') None None) = None"
    "fetch_streams (lit ''x'') (lit ''movie'') None None = Returned []"
    "one_stream (lit ''x'') (lit ''movie'') None None =
       Returned [[(lit ''url'', JStr (lit ''https://cuevana.pro/v/1''))]]"
    by (simp_all add: new_handler_def fetch_streams_def one_stream_def lit_def)
  have "req_id ?r = Some (lit ''x'') \<and> lit ''x'' \<noteq> [] \<and>
    cache new_handler (stream_cache_key (request_type ?r) (lit ''x'') (req_season ?r)
      (req_episode ?r)) = None \<and>
    fetch_streams (lit ''x'') (request_type ?r) (req_season ?r) (req_episode ?r) = Returned []"
    unfolding t using h by simp
  with empty_streams_not_cached [of ?r "lit ''x''" new_handler fetch_streams one_stream]
  have "get_streams fetch_streams new_handler ?r =
        (Returned [(lit ''streams'', JList []), (lit ''cacheMaxAge'', JInt 3600)],
         log_fetch new_handler (lit ''x'', request_type ?r, req_season ?r, req_episode ?r)) \<and>
      cache (snd (get_streams fetch_streams new_handler ?r)) = cache new_handler \<and>
      fetches (snd (get_streams one_stream (snd (get_streams fetch_streams new_handler ?r)) ?r)) =
        fetches new_handler @
          [(lit ''x'', request_type ?r, req_season ?r, req_episode ?r),
           (lit ''x'', request_type ?r, req_season ?r, req_episode ?r)] \<and>
      fst (get_streams one_stream (snd (get_streams fetch_streams new_handler ?r)) ?r) =
        (case one_stream (lit ''x'') (request_type ?r) (req_season ?r) (req_episode ?r) of
           Raised e \<Rightarrow> Raised e
         | Returned streams \<Rightarrow>
             Returned [(lit ''streams'', JList (map JDict streams)),
                       (lit ''cacheMaxAge'', JInt 3600)])"
    by blast
  then show ?thesis
    unfolding t h by (elim conjE) (simp add: h)
qed

text \<open>
  Claim C6. The claim says that a read performed after the freshness window has elapsed
  is a miss and fetches again. In the code it is a hit: a metadata entry created at
  time 0 is served at time 604801, one second past the seven days, without
  \<^verbatim>\<open>cacheMaxAge\<close> and without a second fetch.
\<close>

theorem stale_entry_served_counterexample:
  "fst (serve (get_metadata fetch_metadata) new_handler
          [(0, movie_request (lit ''x'')), (604801, movie_request (lit ''x''))]) =
     [Returned [(lit ''meta'', JDict (metadata_skeleton (lit ''x'') (lit ''movie''))),
                (lit ''cacheMaxAge'', JInt 604800)],
      Returned [(lit ''meta'', JDict (metadata_skeleton (lit ''x'') (lit ''movie'')))]] \<and>
   fetches (snd (serve (get_metadata fetch_metadata) new_handler
          [(0, movie_request (lit ''x'')), (604801, movie_request (lit ''x''))])) =
     [(lit ''x'', lit ''movie'', None, None)]"
  by (simp add: get_metadata_def fetch_metadata_def new_handler_def movie_request_def
      request_type_def metadata_cache_key_def Let_def log_fetch_def cache_put_def
      metadata_skeleton_def lit_def)

text \<open>
  Claim C6, as the code has it. A cache entry is served unchanged on every read of its
  key, at whatever time the read arrives and whatever was requested in between: when
  the entry of a request is present, then after any run \<open>requests\<close> of other requests
  (it may be empty) the request is answered with that entry, without \<^verbatim>\<open>cacheMaxAge\<close>,
  and the handler is as the run left it; when a request misses and its fetch returns a
  non-empty value, then after any run of requests the same request is answered with
  that value from the cache, whatever the arrival times are. No request removes or
  replaces an entry: every entry of the cache is still there, with the same value, after
  any run of requests through \<open>get_metadata\<close>, \<open>get_streams\<close>, \<open>handle_metadata\<close> or
  \<open>handle_stream\<close>. Only \<open>clear_cache\<close> removes entries, all of them at once and
  keeping the log of fetches, and the next request with an identifier then calls the
  fetch. The windows exist only as the hint \<^verbatim>\<open>cacheMaxAge\<close> of a response built on the
  miss path (604800 for metadata, 3600 for streams) and of every catalogue response
  (86400).
\<close>

theorem cached_entry_served_at_any_age:
  "(req_id request = Some cid \<and> cid \<noteq> [] \<longrightarrow>
     (\<forall>v. cache h (metadata_cache_key (request_type request) cid) = Some v \<longrightarrow>
        serve (get_metadata fetch_m) h (requests @ [(t, request)]) =
          (fst (serve (get_metadata fetch_m) h requests) @ [Returned [(lit ''meta'', v)]],
           snd (serve (get_metadata fetch_m) h requests))) \<and>
     (\<forall>v. cache h (stream_cache_key (request_type request) cid (req_season request)
             (req_episode request)) = Some v \<longrightarrow>
        serve (get_streams fetch_s) h (requests @ [(t, request)]) =
          (fst (serve (get_streams fetch_s) h requests) @ [Returned [(lit ''streams'', v)]],
           snd (serve (get_streams fetch_s) h requests))) \<and>
     (\<forall>meta. cache h (metadata_cache_key (request_type request) cid) = None \<and>
         fetch_m cid (request_type request) = Returned meta \<and> meta \<noteq> [] \<longrightarrow>
        serve (get_metadata fetch_m) h ((t1, request) # requests @ [(t2, request)]) =
          (Returned [(lit ''meta'', JDict meta), (lit ''cacheMaxAge'', JInt 604800)] #
           fst (serve (get_metadata fetch_m)
                  (cache_put (log_fetch h (cid, request_type request, None, None))
                     (metadata_cache_key (request_type request) cid) (JDict meta))
                  requests) @
           [Returned [(lit ''meta'', JDict meta)]],
           snd (serve (get_metadata fetch_m)
                  (cache_put (log_fetch h (cid, request_type request, None, None))
                     (metadata_cache_key (request_type request) cid) (JDict meta))
                  requests))) \<and>
     (\<forall>streams. cache h (stream_cache_key (request_type request) cid (req_season request)
             (req_episode request)) = None \<and>
         fetch_s cid (request_type request) (req_season request) (req_episode request) =
           Returned streams \<and> streams \<noteq> [] \<longrightarrow>
        serve (get_streams fetch_s) h ((t1, request) # requests @ [(t2, request)]) =
          (Returned [(lit ''streams'', JList (map JDict streams)),
                     (lit ''cacheMaxAge'', JInt 3600)] #
           fst (serve (get_streams fetch_s)
                  (cache_put
                     (log_fetch h
                        (cid, request_type request, req_season request, req_episode request))
                     (stream_cache_key (request_type request) cid (req_season request)
                        (req_episode request))
                     (JList (map JDict streams)))
                  requests) @
           [Returned [(lit ''streams'', JList (map JDict streams))]],
           snd (serve (get_streams fetch_s)
                  (cache_put
                     (log_fetch h
                        (cid, request_type request, req_season request, req_episode request))
                     (stream_cache_key (request_type request) cid (req_season request)
                        (req_episode request))
                     (JList (map JDict streams)))
                  requests))) \<and>
     fetches (snd (get_metadata fetch_m (clear_cache h) request)) =
       fetches h @ [(cid, request_type request, None, None)] \<and>
     fetches (snd (get_streams fetch_s (clear_cache h) request)) =
       fetches h @ [(cid, request_type request, req_season request, req_episode request)]) \<and>
   (\<forall>k v. cache h k = Some v \<longrightarrow>
      cache (snd (serve (get_metadata fetch_m) h requests)) k = Some v \<and>
      cache (snd (serve (get_streams fetch_s) h requests)) k = Some v \<and>
      cache (snd (serve (handle_metadata fetch_m) h requests)) k = Some v \<and>
      cache (snd (serve (handle_stream fetch_s) h requests)) k = Some v) \<and>
   cache (clear_cache h) = Map.empty \<and>
   fetches (clear_cache h) = fetches h \<and>
   get_catalog catalog =
     [(lit ''metas'', JList []), (lit ''cacheMaxAge'', JInt 86400)]"
proof -
  let ?mkey = "metadata_cache_key (request_type request) cid"
  let ?skey = "stream_cache_key (request_type request) cid (req_season request)
      (req_episode request)"
  let ?mcall = "(cid, request_type request, None :: int option, None :: int option)"
  let ?scall = "(cid, request_type request, req_season request, req_episode request)"
  have cat: "get_catalog catalog =
     [(lit ''metas'', JList []), (lit ''cacheMaxAge'', JInt 86400)]"
    by (simp add: get_catalog_def search_catalog_def get_by_genre_def get_popular_def Let_def)
  have keeps: "cache (snd (serve (get_metadata fetch_m) h requests)) k = Some v \<and>
      cache (snd (serve (get_streams fetch_s) h requests)) k = Some v \<and>
      cache (snd (serve (handle_metadata fetch_m) h requests)) k = Some v \<and>
      cache (snd (serve (handle_stream fetch_s) h requests)) k = Some v"
    if present: "cache h k = Some v" for k v
  proof (intro conjI)
    show "cache (snd (serve (get_metadata fetch_m) h requests)) k = Some v"
      using get_metadata_keeps present by (rule serve_keeps)
    show "cache (snd (serve (get_streams fetch_s) h requests)) k = Some v"
      using get_streams_keeps present by (rule serve_keeps)
    show "cache (snd (serve (handle_metadata fetch_m) h requests)) k = Some v"
      using _ present
      by (rule serve_keeps) (simp add: handle_metadata_snd get_metadata_keeps)
    show "cache (snd (serve (handle_stream fetch_s) h requests)) k = Some v"
      using _ present
      by (rule serve_keeps) (simp add: handle_stream_snd get_streams_keeps)
  qed
  have with_id: "(\<forall>v. cache h ?mkey = Some v \<longrightarrow>
        serve (get_metadata fetch_m) h (requests @ [(t, request)]) =
          (fst (serve (get_metadata fetch_m) h requests) @ [Returned [(lit ''meta'', v)]],
           snd (serve (get_metadata fetch_m) h requests))) \<and>
     (\<forall>v. cache h ?skey = Some v \<longrightarrow>
        serve (get_streams fetch_s) h (requests @ [(t, request)]) =
          (fst (serve (get_streams fetch_s) h requests) @ [Returned [(lit ''streams'', v)]],
           snd (serve (get_streams fetch_s) h requests))) \<and>
     (\<forall>meta. cache h ?mkey = None \<and>
         fetch_m cid (request_type request) = Returned meta \<and> meta \<noteq> [] \<longrightarrow>
        serve (get_metadata fetch_m) h ((t1, request) # requests @ [(t2, request)]) =
          (Returned [(lit ''meta'', JDict meta), (lit ''cacheMaxAge'', JInt 604800)] #
           fst (serve (get_metadata fetch_m)
                  (cache_put (log_fetch h ?mcall) ?mkey (JDict meta)) requests) @
           [Returned [(lit ''meta'', JDict meta)]],
           snd (serve (get_metadata fetch_m)
                  (cache_put (log_fetch h ?mcall) ?mkey (JDict meta)) requests))) \<and>
     (\<forall>streams. cache h ?skey = None \<and>
         fetch_s cid (request_type request) (req_season request) (req_episode request) =
           Returned streams \<and> streams \<noteq> [] \<longrightarrow>
        serve (get_streams fetch_s) h ((t1, request) # requests @ [(t2, request)]) =
          (Returned [(lit ''streams'', JList (map JDict streams)),
                     (lit ''cacheMaxAge'', JInt 3600)] #
           fst (serve (get_streams fetch_s)
                  (cache_put (log_fetch h ?scall) ?skey (JList (map JDict streams)))
                  requests) @
           [Returned [(lit ''streams'', JList (map JDict streams))]],
           snd (serve (get_streams fetch_s)
                  (cache_put (log_fetch h ?scall) ?skey (JList (map JDict streams)))
                  requests))) \<and>
     fetches (snd (get_metadata fetch_m (clear_cache h) request)) = fetches h @ [?mcall] \<and>
     fetches (snd (get_streams fetch_s (clear_cache h) request)) = fetches h @ [?scall]"
    if id: "req_id request = Some cid \<and> cid \<noteq> []"
  proof -
    from id have rid: "req_id request = Some cid" and ne: "cid \<noteq> []" by simp_all
    have m_hit: "get_metadata fetch_m h' request = (Returned [(lit ''meta'', v)], h')"
      if "cache h' ?mkey = Some v" for h' v
      using rid ne that by (rule get_metadata_hit)
    have s_hit: "get_streams fetch_s h' request = (Returned [(lit ''streams'', v)], h')"
      if "cache h' ?skey = Some v" for h' v
      using rid ne that by (rule get_streams_hit)
    have m1: "serve (get_metadata fetch_m) h' (requests @ [(t', request)]) =
          (fst (serve (get_metadata fetch_m) h' requests) @ [Returned [(lit ''meta'', v)]],
           snd (serve (get_metadata fetch_m) h' requests))"
      if "cache h' ?mkey = Some v" for h' v t'
      using m_hit get_metadata_keeps that by (rule hit_after)
    have s1: "serve (get_streams fetch_s) h' (requests @ [(t', request)]) =
          (fst (serve (get_streams fetch_s) h' requests) @ [Returned [(lit ''streams'', v)]],
           snd (serve (get_streams fetch_s) h' requests))"
      if "cache h' ?skey = Some v" for h' v t'
      using s_hit get_streams_keeps that by (rule hit_after)
    have m2: "serve (get_metadata fetch_m) h ((t1, request) # requests @ [(t2, request)]) =
          (Returned [(lit ''meta'', JDict meta), (lit ''cacheMaxAge'', JInt 604800)] #
           fst (serve (get_metadata fetch_m)
                  (cache_put (log_fetch h ?mcall) ?mkey (JDict meta)) requests) @
           [Returned [(lit ''meta'', JDict meta)]],
           snd (serve (get_metadata fetch_m)
                  (cache_put (log_fetch h ?mcall) ?mkey (JDict meta)) requests))"
      if miss: "cache h ?mkey = None \<and>
         fetch_m cid (request_type request) = Returned meta \<and> meta \<noteq> []" for meta
    proof -
      let ?h1 = "cache_put (log_fetch h ?mcall) ?mkey (JDict meta)"
      have first: "get_metadata fetch_m h request =
          (Returned [(lit ''meta'', JDict meta), (lit ''cacheMaxAge'', JInt 604800)], ?h1)"
        using get_metadata_miss [of request cid h fetch_m] rid ne miss by simp
      have "cache ?h1 ?mkey = Some (JDict meta)" by (simp add: cache_cache_put)
      then have later: "serve (get_metadata fetch_m) ?h1 (requests @ [(t2, request)]) =
          (fst (serve (get_metadata fetch_m) ?h1 requests) @
             [Returned [(lit ''meta'', JDict meta)]],
           snd (serve (get_metadata fetch_m) ?h1 requests))"
        by (rule m1)
      show ?thesis
        by (simp only: serve.simps first later prod.case)
    qed
    have s2: "serve (get_streams fetch_s) h ((t1, request) # requests @ [(t2, request)]) =
          (Returned [(lit ''streams'', JList (map JDict streams)),
                     (lit ''cacheMaxAge'', JInt 3600)] #
           fst (serve (get_streams fetch_s)
                  (cache_put (log_fetch h ?scall) ?skey (JList (map JDict streams)))
                  requests) @
           [Returned [(lit ''streams'', JList (map JDict streams))]],
           snd (serve (get_streams fetch_s)
                  (cache_put (log_fetch h ?scall) ?skey (JList (map JDict streams)))
                  requests))"
      if miss: "cache h ?skey = None \<and>
         fetch_s cid (request_type request) (req_season request) (req_episode request) =
           Returned streams \<and> streams \<noteq> []" for streams
    proof -
      let ?h1 = "cache_put (log_fetch h ?scall) ?skey (JList (map JDict streams))"
      have first: "get_streams fetch_s h request =
          (Returned [(lit ''streams'', JList (map JDict streams)),
                     (lit ''cacheMaxAge'', JInt 3600)], ?h1)"
        using get_streams_miss [of request cid h fetch_s] rid ne miss by simp
      have "cache ?h1 ?skey = Some (JList (map JDict streams))" by (simp add: cache_cache_put)
      then have later: "serve (get_streams fetch_s) ?h1 (requests @ [(t2, request)]) =
          (fst (serve (get_streams fetch_s) ?h1 requests) @
             [Returned [(lit ''streams'', JList (map JDict streams))]],
           snd (serve (get_streams fetch_s) ?h1 requests))"
        by (rule s1)
      show ?thesis
        by (simp only: serve.simps first later prod.case)
    qed
    have cm: "fetches (snd (get_metadata fetch_m (clear_cache h) request)) =
        fetches h @ [?mcall]"
      using get_metadata_miss [of request cid "clear_cache h" fetch_m] rid ne
      by (simp add: clear_cache_simps fetches_log_fetch fetches_cache_put
          split: outcome.splits)
    have cs: "fetches (snd (get_streams fetch_s (clear_cache h) request)) =
        fetches h @ [?scall]"
      using get_streams_miss [of request cid "clear_cache h" fetch_s] rid ne
      by (simp add: clear_cache_simps fetches_log_fetch fetches_cache_put
          split: outcome.splits)
    from m1 [of h] s1 [of h] m2 s2 cm cs show ?thesis by blast
  qed
  from with_id keeps cat clear_cache_simps [of h] show ?thesis by blast
qed


theorem cached_entry_served_at_any_age_witness:
  "fst (serve (get_metadata fetch_metadata)
          (cache_put new_handler (lit ''movie:x'') (JDict [(lit ''name'', JStr (lit ''X''))]))
          ([(1, movie_request (lit ''y'')), (2, movie_request (lit ''z''))] @
           [(604801, movie_request (lit ''x''))])) =
     [Returned [(lit ''meta'', JDict (metadata_skeleton (lit ''y'') (lit ''movie''))),
                (lit ''cacheMaxAge'', JInt 604800)],
      Returned [(lit ''meta'', JDict (metadata_skeleton (lit ''z'') (lit ''movie''))),
                (lit ''cacheMaxAge'', JInt 604800)],
      Returned [(lit ''meta'', JDict [(lit ''name'', JStr (lit ''X''))])]] \<and>
   fetches (snd (serve (get_metadata fetch_metadata)
          (cache_put new_handler (lit ''movie:x'') (JDict [(lit ''name'', JStr (lit ''X''))]))
          ([(1, movie_request (lit ''y'')), (2, movie_request (lit ''z''))] @
           [(604801, movie_request (lit ''x''))]))) =
     [(lit ''y'', lit ''movie'', None, None), (lit ''z'', lit ''movie'', None, None)] \<and>
   fst (serve (get_metadata fetch_metadata) new_handler
          ((0, movie_request (lit ''x'')) # [(1, movie_request (lit ''y''))] @
           [(604801, movie_request (lit ''x''))])) =
     [Returned [(lit ''meta'', JDict (metadata_skeleton (lit ''x'') (lit ''movie''))),
                (lit ''cacheMaxAge'', JInt 604800)],
      Returned [(lit ''meta'', JDict (metadata_skeleton (lit ''y'') (lit ''movie''))),
                (lit ''cacheMaxAge'', JInt 604800)],
      Returned [(lit ''meta'', JDict (metadata_skeleton (lit ''x'') (lit ''movie'')))]] \<and>
   fetches (snd (serve (get_metadata fetch_metadata) new_handler
          ((0, movie_request (lit ''x'')) # [(1, movie_request (lit ''y''))] @
           [(604801, movie_request (lit ''x''))]))) =
     [(lit ''x'', lit ''movie'', None, None), (lit ''y'', lit ''movie'', None, None)] \<and>
   serve (get_streams one_stream) new_handler
     ((0, movie_request (lit ''x'')) # [] @ [(3601, movie_request (lit ''x''))]) =
     ([Returned [(lit ''streams'',
                  JList [JDict [(lit ''url'', JStr (lit ''https://cuevana.pro/v/1''))]]),
                 (lit ''cacheMaxAge'', JInt 3600)],
       Returned [(lit ''streams'',
                  JList [JDict [(lit ''url'', JStr (lit ''https://cuevana.pro/v/1''))]])]],
      cache_put (log_fetch new_handler (lit ''x'', lit ''movie'', None, None))
        (lit ''movie:x'')
        (JList [JDict [(lit ''url'', JStr (lit ''https://cuevana.pro/v/1''))]])) \<and>
   cache (snd (serve (handle_stream one_stream)
          (cache_put new_handler (lit ''movie:x'') (JDict [(lit ''name'', JStr (lit ''X''))]))
          [(5, movie_request (lit ''y''))])) (lit ''movie:x'') =
     Some (JDict [(lit ''name'', JStr (lit ''X''))]) \<and>
   fetches (snd (get_metadata fetch_metadata
          (clear_cache
             (cache_put new_handler (lit ''movie:x'')
                (JDict [(lit ''name'', JStr (lit ''X''))])))
          (movie_request (lit ''x'')))) =
     [(lit ''x'', lit ''movie'', None, None)]"
proof -
  let ?x = "movie_request (lit ''x'')"
  let ?v = "JDict [(lit ''name'', JStr (lit ''X''))]"
  let ?h0 = "cache_put new_handler (lit ''movie:x'') ?v"
  let ?others = "[(1 :: nat, movie_request (lit ''y'')), (2, movie_request (lit ''z''))]"
  let ?other = "[(1 :: nat, movie_request (lit ''y''))]"
  let ?sx = "metadata_skeleton (lit ''x'') (lit ''movie'')"
  let ?hx = "cache_put (log_fetch new_handler (lit ''x'', lit ''movie'', None, None))
      (lit ''movie:x'') (JDict ?sx)"
  let ?one = "[[(lit ''url'', JStr (lit ''https://cuevana.pro/v/1''))]]"
  have t: "request_type ?x = lit ''movie''" "req_season ?x = None" "req_episode ?x = None"
    by (simp_all add: request_type_def movie_request_def)
  have id: "req_id ?x = Some (lit ''x'') \<and> lit ''x'' \<noteq> []"
    by (simp add: movie_request_def lit_def)
  have k: "metadata_cache_key (lit ''movie'') (lit ''x'') = lit ''movie:x''"
    "stream_cache_key (lit ''movie'') (lit ''x'') None None = lit ''movie:x''"
    by (simp_all add: metadata_cache_key_def stream_cache_key_def lit_def)
  have present: "cache ?h0 (lit ''movie:x'') = Some ?v"
    by (simp add: cache_cache_put)
  have absent: "cache new_handler (lit ''movie:x'') = None"
    by (simp add: new_handler_def)
  have fx: "fetch_metadata (lit ''x'') (lit ''movie'') = Returned ?sx" "?sx \<noteq> []"
    by (simp_all add: fetch_metadata_def metadata_skeleton_def)
  have fs: "one_stream (lit ''x'') (lit ''movie'') None None = Returned ?one" "?one \<noteq> []"
    by (simp_all add: one_stream_def)
  have run0: "serve (get_metadata fetch_metadata) ?h0 ?others =
      ([Returned [(lit ''meta'', JDict (metadata_skeleton (lit ''y'') (lit ''movie''))),
                  (lit ''cacheMaxAge'', JInt 604800)],
        Returned [(lit ''meta'', JDict (metadata_skeleton (lit ''z'') (lit ''movie''))),
                  (lit ''cacheMaxAge'', JInt 604800)]],
       snd (serve (get_metadata fetch_metadata) ?h0 ?others))"
    "fetches (snd (serve (get_metadata fetch_metadata) ?h0 ?others)) =
      [(lit ''y'', lit ''movie'', None, None), (lit ''z'', lit ''movie'', None, None)]"
    by (simp_all add: get_metadata_def fetch_metadata_def new_handler_def movie_request_def
        request_type_def metadata_cache_key_def Let_def log_fetch_def cache_put_def
        metadata_skeleton_def lit_def)
  have runx: "serve (get_metadata fetch_metadata) ?hx ?other =
      ([Returned [(lit ''meta'', JDict (metadata_skeleton (lit ''y'') (lit ''movie''))),
                  (lit ''cacheMaxAge'', JInt 604800)]],
       snd (serve (get_metadata fetch_metadata) ?hx ?other))"
    "fetches (snd (serve (get_metadata fetch_metadata) ?hx ?other)) =
      [(lit ''x'', lit ''movie'', None, None), (lit ''y'', lit ''movie'', None, None)]"
    by (simp_all add: get_metadata_def fetch_metadata_def new_handler_def movie_request_def
        request_type_def metadata_cache_key_def Let_def log_fetch_def cache_put_def
        metadata_skeleton_def lit_def)
  have hit: "serve (get_metadata fetch_metadata) ?h0 (?others @ [(604801, ?x)]) =
      (fst (serve (get_metadata fetch_metadata) ?h0 ?others) @ [Returned [(lit ''meta'', ?v)]],
       snd (serve (get_metadata fetch_metadata) ?h0 ?others))"
    using cached_entry_served_at_any_age
      [where request = ?x and cid = "lit ''x''" and h = ?h0 and fetch_m = fetch_metadata
         and requests = ?others and t = 604801,
       THEN conjunct1, THEN mp, OF id, THEN conjunct1, THEN spec, THEN mp]
      present
    by (simp only: t k)
  have first: "fst (serve (get_metadata fetch_metadata) ?h0 (?others @ [(604801, ?x)])) =
     [Returned [(lit ''meta'', JDict (metadata_skeleton (lit ''y'') (lit ''movie''))),
                (lit ''cacheMaxAge'', JInt 604800)],
      Returned [(lit ''meta'', JDict (metadata_skeleton (lit ''z'') (lit ''movie''))),
                (lit ''cacheMaxAge'', JInt 604800)],
      Returned [(lit ''meta'', ?v)]]"
    by (subst hit, subst run0(1)) simp
  have second: "fetches (snd (serve (get_metadata fetch_metadata) ?h0
        (?others @ [(604801, ?x)]))) =
     [(lit ''y'', lit ''movie'', None, None), (lit ''z'', lit ''movie'', None, None)]"
    by (subst hit) (simp only: snd_conv run0(2))
  have again: "serve (get_metadata fetch_metadata) new_handler
        ((0, ?x) # ?other @ [(604801, ?x)]) =
      (Returned [(lit ''meta'', JDict ?sx), (lit ''cacheMaxAge'', JInt 604800)] #
       fst (serve (get_metadata fetch_metadata) ?hx ?other) @
       [Returned [(lit ''meta'', JDict ?sx)]],
       snd (serve (get_metadata fetch_metadata) ?hx ?other))"
    using cached_entry_served_at_any_age
      [where request = ?x and cid = "lit ''x''" and h = new_handler
         and fetch_m = fetch_metadata and requests = ?other and ?t1.0 = 0
         and ?t2.0 = 604801,
       THEN conjunct1, THEN mp, OF id, THEN conjunct2, THEN conjunct2, THEN conjunct1,
       THEN spec, THEN mp]
      absent fx
    by (simp only: t k)
  have third: "fst (serve (get_metadata fetch_metadata) new_handler
        ((0, ?x) # ?other @ [(604801, ?x)])) =
     [Returned [(lit ''meta'', JDict ?sx), (lit ''cacheMaxAge'', JInt 604800)],
      Returned [(lit ''meta'', JDict (metadata_skeleton (lit ''y'') (lit ''movie''))),
                (lit ''cacheMaxAge'', JInt 604800)],
      Returned [(lit ''meta'', JDict ?sx)]]"
    by (subst again, subst runx(1)) simp
  have fourth: "fetches (snd (serve (get_metadata fetch_metadata) new_handler
        ((0, ?x) # ?other @ [(604801, ?x)]))) =
     [(lit ''x'', lit ''movie'', None, None), (lit ''y'', lit ''movie'', None, None)]"
    by (subst again) (simp only: snd_conv runx(2))
  have fifth: "serve (get_streams one_stream) new_handler ((0, ?x) # [] @ [(3601, ?x)]) =
     ([Returned [(lit ''streams'', JList (map JDict ?one)), (lit ''cacheMaxAge'', JInt 3600)],
       Returned [(lit ''streams'', JList (map JDict ?one))]],
      cache_put (log_fetch new_handler (lit ''x'', lit ''movie'', None, None))
        (lit ''movie:x'') (JList (map JDict ?one)))"
    using cached_entry_served_at_any_age
      [where request = ?x and cid = "lit ''x''" and h = new_handler
         and fetch_s = one_stream and requests = "[]" and ?t1.0 = 0 and ?t2.0 = 3601,
       THEN conjunct1, THEN mp, OF id, THEN conjunct2, THEN conjunct2, THEN conjunct2,
       THEN conjunct1, THEN spec, THEN mp]
      absent fs
    by (simp add: t k)
  have sixth: "cache (snd (serve (handle_stream one_stream) ?h0
        [(5, movie_request (lit ''y''))])) (lit ''movie:x'') = Some ?v"
    by (rule cached_entry_served_at_any_age
      [where h = ?h0 and fetch_s = one_stream and fetch_m = fetch_metadata
         and requests = "[(5, movie_request (lit ''y''))]",
       THEN conjunct2, THEN conjunct1, THEN spec, THEN spec, THEN mp, OF present,
       THEN conjunct2, THEN conjunct2, THEN conjunct2])
  have seventh: "fetches (snd (get_metadata fetch_metadata (clear_cache ?h0) ?x)) =
     [(lit ''x'', lit ''movie'', None, None)]"
    using cached_entry_served_at_any_age
      [where request = ?x and cid = "lit ''x''" and h = ?h0 and fetch_m = fetch_metadata,
       THEN conjunct1, THEN mp, OF id, THEN conjunct2, THEN conjunct2, THEN conjunct2,
       THEN conjunct2, THEN conjunct1]
    by (simp add: t fetches_cache_put new_handler_def)
  from first second third fourth fifth sixth seventh show ?thesis
    by (simp only: list.map)
qed

text \<open>
  Claim C9. When \<^verbatim>\<open>season\<close> is \<^verbatim>\<open>None\<close> the cache key of \<open>get_streams\<close> is the kind, a
  colon and the identifier, whatever the episode is. Two requests with the same kind and
  identifier and no season share the key: when the first misses and fetches a non-empty
  list, the second is served that list from the cache, without a fetch, even if its
  episode differs.
\<close>

theorem season_none_key_ignores_episode:
  assumes "req_season r1 = None" and "req_season r2 = None"
    and "req_id r1 = Some cid" and "req_id r2 = Some cid" and "cid \<noteq> []"
    and "request_type r2 = request_type r1"
    and "cache h (request_type r1 @ lit '':'' @ cid) = None"
    and "fetch cid (request_type r1) None (req_episode r1) = Returned streams"
    and "streams \<noteq> []"
  shows "stream_cache_key (request_type r1) cid (req_season r1) (req_episode r1) =
           request_type r1 @ lit '':'' @ cid \<and>
         stream_cache_key (request_type r2) cid (req_season r2) (req_episode r2) =
           request_type r1 @ lit '':'' @ cid \<and>
         (\<exists>h1. get_streams fetch h r1 =
                 (Returned [(lit ''streams'', JList (map JDict streams)),
                            (lit ''cacheMaxAge'', JInt 3600)], h1) \<and>
               cache h1 (request_type r1 @ lit '':'' @ cid) = Some (JList (map JDict streams)) \<and>
               get_streams fetch2 h1 r2 =
                 (Returned [(lit ''streams'', JList (map JDict streams))], h1))"
proof -
  let ?key = "request_type r1 @ lit '':'' @ cid"
  let ?h1 = "cache_put (log_fetch h (cid, request_type r1, None, req_episode r1)) ?key
      (JList (map JDict streams))"
  have k1: "stream_cache_key (request_type r1) cid (req_season r1) (req_episode r1) = ?key"
    using assms(1) by (simp add: stream_cache_key_no_season)
  have k2: "stream_cache_key (request_type r2) cid (req_season r2) (req_episode r2) = ?key"
    using assms(2,6) by (simp add: stream_cache_key_no_season)
  have first: "get_streams fetch h r1 =
      (Returned [(lit ''streams'', JList (map JDict streams)),
                 (lit ''cacheMaxAge'', JInt 3600)], ?h1)"
    using get_streams_miss [of r1 cid h fetch] assms k1 by simp
  have entry: "cache ?h1 ?key = Some (JList (map JDict streams))"
    by (simp add: cache_cache_put)
  have second: "get_streams fetch2 ?h1 r2 =
      (Returned [(lit ''streams'', JList (map JDict streams))], ?h1)"
    using get_streams_hit [of r2 cid ?h1 "JList (map JDict streams)" fetch2] assms(4,5) k2 entry
    by simp
  from k1 k2 first entry second show ?thesis by blast
qed

theorem season_none_key_ignores_episode_witness:
  "stream_cache_key (lit ''series'') (lit ''x'') None (Some 1) = lit ''series:x'' \<and>
   stream_cache_key (lit ''series'') (lit ''x'') None (Some 2) = lit ''series:x'' \<and>
   (\<exists>h1. get_streams one_stream new_handler (series_request (lit ''x'') None (Some 1)) =
            (Returned [(lit ''streams'',
                        JList [JDict [(lit ''url'', JStr (lit ''https://cuevana.pro/v/1''))]]),
                       (lit ''cacheMaxAge'', JInt 3600)], h1) \<and>
          cache h1 (lit ''series:x'') =
            Some (JList [JDict [(lit ''url'', JStr (lit ''https://cuevana.pro/v/1''))]]) \<and>
          get_streams fetch_streams h1 (series_request (lit ''x'') None (Some 2)) =
            (Returned [(lit ''streams'',
                        JList [JDict [(lit ''url'', JStr (lit ''https://cuevana.pro/v/1''))]])],
             h1))"
proof -
  let ?r1 = "series_request (lit ''x'') None (Some 1)"
  let ?r2 = "series_request (lit ''x'') None (Some 2)"
  have t: "request_type ?r1 = lit ''series''" "request_type ?r2 = lit ''series''"
    by (simp_all add: request_type_def series_request_def)
  have k: "lit ''series'' @ lit '':'' @ lit ''x'' = lit ''series:x''"
    by (simp add: lit_def)
  have "req_season ?r1 = None" "req_season ?r2 = None"
    "req_id ?r1 = Some (lit ''x'')" "req_id ?r2 = Some (lit ''x'')" "lit ''x'' \<noteq> []"
    "request_type ?r2 = request_type ?r1"
    "cache new_handler (request_type ?r1 @ lit '':'' @ lit ''x'') = None"
    "one_stream (lit ''x'') (request_type ?r1) None (req_episode ?r1) =
       Returned [[(lit ''url'', JStr (lit ''https://cuevana.pro/v/1''))]]"
    "[[(lit ''url'', JStr (lit ''https://cuevana.pro/v/1''))]] \<noteq> []"
    by (simp_all add: series_request_def request_type_def new_handler_def one_stream_def lit_def)
  from season_none_key_ignores_episode
    [of ?r1 ?r2 "lit ''x''" new_handler one_stream
      "[[(lit ''url'', JStr (lit ''https://cuevana.pro/v/1''))]]" fetch_streams, OF this]
  show ?thesis
    unfolding t k by (simp add: series_request_def)
qed

text \<open>
  Claim C10. A request that hits the cache is answered with an envelope that has the one
  field \<^verbatim>\<open>"meta"\<close> (respectively \<^verbatim>\<open>"streams"\<close>) holding the cached value. An envelope that
  has the field \<^verbatim>\<open>"cacheMaxAge"\<close> was built on the miss path: the identifier is present,
  the key was not in the cache, and the envelope holds what the fetch returned.
\<close>

theorem cache_hit_omits_max_age:
  "(req_id request = Some cid \<and> cid \<noteq> [] \<longrightarrow>
      (\<forall>v. cache h (metadata_cache_key (request_type request) cid) = Some v \<longrightarrow>
         get_metadata fetch_m h request = (Returned [(lit ''meta'', v)], h)) \<and>
      (\<forall>v. cache h (stream_cache_key (request_type request) cid (req_season request)
              (req_episode request)) = Some v \<longrightarrow>
         get_streams fetch_s h request = (Returned [(lit ''streams'', v)], h))) \<and>
   (\<forall>env. fst (get_metadata fetch_m h request) = Returned env \<and>
        lit ''cacheMaxAge'' \<in> fst ` set env \<longrightarrow>
      (\<exists>cid meta. req_id request = Some cid \<and> cid \<noteq> [] \<and>
         cache h (metadata_cache_key (request_type request) cid) = None \<and>
         fetch_m cid (request_type request) = Returned meta \<and>
         env = [(lit ''meta'', JDict meta), (lit ''cacheMaxAge'', JInt 604800)])) \<and>
   (\<forall>env. fst (get_streams fetch_s h request) = Returned env \<and>
        lit ''cacheMaxAge'' \<in> fst ` set env \<longrightarrow>
      (\<exists>cid streams. req_id request = Some cid \<and> cid \<noteq> [] \<and>
         cache h (stream_cache_key (request_type request) cid (req_season request)
           (req_episode request)) = None \<and>
         fetch_s cid (request_type request) (req_season request) (req_episode request) =
           Returned streams \<and>
         env = [(lit ''streams'', JList (map JDict streams)),
                (lit ''cacheMaxAge'', JInt 3600)]))"
proof -
  have hit: "req_id request = Some cid \<and> cid \<noteq> [] \<longrightarrow>
      (\<forall>v. cache h (metadata_cache_key (request_type request) cid) = Some v \<longrightarrow>
         get_metadata fetch_m h request = (Returned [(lit ''meta'', v)], h)) \<and>
      (\<forall>v. cache h (stream_cache_key (request_type request) cid (req_season request)
              (req_episode request)) = Some v \<longrightarrow>
         get_streams fetch_s h request = (Returned [(lit ''streams'', v)], h))"
    using get_metadata_hit [of request cid h _ fetch_m]
      get_streams_hit [of request cid h _ fetch_s] by blast
  have m: "\<exists>cid meta. req_id request = Some cid \<and> cid \<noteq> [] \<and>
         cache h (metadata_cache_key (request_type request) cid) = None \<and>
         fetch_m cid (request_type request) = Returned meta \<and>
         env = [(lit ''meta'', JDict meta), (lit ''cacheMaxAge'', JInt 604800)]"
    if "fst (get_metadata fetch_m h request) = Returned env"
      and "lit ''cacheMaxAge'' \<in> fst ` set env" for env
    using that lit_simps
    by (auto simp: get_metadata_def Let_def split: option.splits if_splits outcome.splits)
  have s: "\<exists>cid streams. req_id request = Some cid \<and> cid \<noteq> [] \<and>
         cache h (stream_cache_key (request_type request) cid (req_season request)
           (req_episode request)) = None \<and>
         fetch_s cid (request_type request) (req_season request) (req_episode request) =
           Returned streams \<and>
         env = [(lit ''streams'', JList (map JDict streams)),
                (lit ''cacheMaxAge'', JInt 3600)]"
    if "fst (get_streams fetch_s h request) = Returned env"
      and "lit ''cacheMaxAge'' \<in> fst ` set env" for env
    using that lit_simps
    by (auto simp: get_streams_def Let_def split: option.splits if_splits outcome.splits)
  from hit m s show ?thesis by blast
qed

theorem cache_hit_omits_max_age_witness:
  "get_metadata fetch_metadata
     (cache_put new_handler (lit ''movie:x'') (JDict [(lit ''name'', JStr (lit ''X''))]))
     (movie_request (lit ''x'')) =
     (Returned [(lit ''meta'', JDict [(lit ''name'', JStr (lit ''X''))])],
      cache_put new_handler (lit ''movie:x'') (JDict [(lit ''name'', JStr (lit ''X''))])) \<and>
   get_streams fetch_streams
     (cache_put new_handler (lit ''movie:x'') (JDict [(lit ''name'', JStr (lit ''X''))]))
     (movie_request (lit ''x'')) =
     (Returned [(lit ''streams'', JDict [(lit ''name'', JStr (lit ''X''))])],
      cache_put new_handler (lit ''movie:x'') (JDict [(lit ''name'', JStr (lit ''X''))])) \<and>
   fst (get_metadata fetch_metadata new_handler (movie_request (lit ''x''))) =
     Returned [(lit ''meta'', JDict (metadata_skeleton (lit ''x'') (lit ''movie''))),
               (lit ''cacheMaxAge'', JInt 604800)] \<and>
   cache new_handler (metadata_cache_key (lit ''movie'') (lit ''x'')) = None \<and>
   fst (get_streams fetch_streams new_handler (movie_request (lit ''x''))) =
     Returned [(lit ''streams'', JList []), (lit ''cacheMaxAge'', JInt 3600)] \<and>
   cache new_handler (stream_cache_key (lit ''movie'') (lit ''x'') None None) = None"
proof -
  let ?r = "movie_request (lit ''x'')"
  let ?v = "JDict [(lit ''name'', JStr (lit ''X''))]"
  let ?h = "cache_put new_handler (lit ''movie:x'') ?v"
  have t: "request_type ?r = lit ''movie''" "req_season ?r = None" "req_episode ?r = None"
    "req_id ?r = Some (lit ''x'')"
    by (simp_all add: request_type_def movie_request_def)
  have k: "metadata_cache_key (lit ''movie'') (lit ''x'') = lit ''movie:x''"
    "stream_cache_key (lit ''movie'') (lit ''x'') None None = lit ''movie:x''"
    by (simp_all add: metadata_cache_key_def stream_cache_key_def lit_def)
  have c: "cache ?h (lit ''movie:x'') = Some ?v" "cache new_handler (lit ''movie:x'') = None"
    "lit ''x'' \<noteq> []"
    by (simp_all add: cache_put_def new_handler_def lit_def)
  have m: "fst (get_metadata fetch_metadata new_handler ?r) =
     Returned [(lit ''meta'', JDict (metadata_skeleton (lit ''x'') (lit ''movie''))),
               (lit ''cacheMaxAge'', JInt 604800)]"
    "fst (get_streams fetch_streams new_handler ?r) =
     Returned [(lit ''streams'', JList []), (lit ''cacheMaxAge'', JInt 3600)]"
    using c(2,3)
    by (simp_all add: get_metadata_def get_streams_def t k fetch_metadata_def
        fetch_streams_def Let_def)
  from cache_hit_omits_max_age [of ?r "lit ''x''" ?h fetch_metadata fetch_streams]
    cache_hit_omits_max_age [of ?r "lit ''x''" new_handler fetch_metadata fetch_streams]
  show ?thesis
    unfolding t k using c m by simp
qed

section \<open>Extraction of a listing page\<close>

lemma parse_movie_item_nonempty: "parse_movie_item urljoin element = Some m \<Longrightarrow> m \<noteq> []"
  by (auto simp: parse_movie_item_def Let_def split: option.splits outcome.splits if_splits)

lemma parse_loop_map_filter:
  "parse_loop urljoin items movies = movies @ List.map_filter (parse_movie_item urljoin) items"
proof (induction items arbitrary: movies)
  case Nil
  show ?case by (simp add: map_filter_simps)
next
  case (Cons item items)
  show ?case
  proof (cases "parse_movie_item urljoin item")
    case None
    with Cons show ?thesis by (simp add: map_filter_simps)
  next
    case (Some m)
    then have "m \<noteq> []" by (rule parse_movie_item_nonempty)
    with Some Cons show ?thesis by (simp add: map_filter_simps)
  qed
qed

lemma search_movies_member:
  assumes "i < length nodes" and "int i < limit"
    and "parse_movie_item urljoin (nodes ! i) = Some m"
  shows "m \<in> set (search_movies urljoin (Returned nodes) limit)"
proof -
  have "i < length (py_slice_to limit nodes)" "py_slice_to limit nodes ! i = nodes ! i"
    using assms(1,2) by (auto simp: py_slice_to_def)
  then have "nodes ! i \<in> set (py_slice_to limit nodes)"
    by (metis nth_mem)
  with assms(3) have "m \<in> set (List.map_filter (parse_movie_item urljoin)
      (py_slice_to limit nodes))"
    by (auto simp: map_filter_def intro!: image_eqI [where x = "nodes ! i"])
  then show ?thesis by (simp add: search_movies_def parse_loop_map_filter)
qed

text \<open>
  Claim C7. The claim says that an item missing a mandatory field (title or link) is
  dropped and that exactly the well-formed items are returned. \<open>parse_movie_item\<close>
  tests the two nodes, not the fields: an item that has a title node and a link node
  without \<^verbatim>\<open>href\<close> passes the test \<^verbatim>\<open>not title or not link\<close>; its \<^verbatim>\<open>href\<close> is read as the
  empty string, which does not start with \<^verbatim>\<open>http\<close>, and \<^verbatim>\<open>urljoin\<close> of the base and the
  empty string is the base. So, wherever such an item stands among the first \<^verbatim>\<open>limit\<close>
  items of a page, \<open>search_movies\<close> returns an entity for it, whose \<^verbatim>\<open>url\<close> is the
  address of the site and whose \<^verbatim>\<open>id\<close> is the prefix followed by that address. An item
  without a title node is dropped: the page of five items whose third has no title
  gives four entities, while the page whose third item has no \<^verbatim>\<open>href\<close> gives five.
\<close>

theorem search_movies_keeps_item_without_href:
  assumes "urljoin CUEVANA_PRO_URL [] = Returned CUEVANA_PRO_URL"
    and "i < length nodes" and "int i < limit"
    and "title_node (nodes ! i) = Some title" and "link_node (nodes ! i) = Some None"
  shows "parse_movie_item urljoin (nodes ! i) =
           Some [(lit ''type'', JStr (lit ''movie'')),
                 (lit ''id'', JStr (ID_PREFIX @ CUEVANA_PRO_URL)),
                 (lit ''name'', JStr title),
                 (lit ''poster'',
                    (case poster_node (nodes ! i) of
                       None \<Rightarrow> JStr []
                     | Some (src, data_src) \<Rightarrow>
                         (case src of
                            Some s \<Rightarrow> JStr s
                          | None \<Rightarrow> (case data_src of Some d \<Rightarrow> JStr d | None \<Rightarrow> JNull)))),
                 (lit ''year'',
                    (case year_node (nodes ! i) of None \<Rightarrow> JStr [] | Some y \<Rightarrow> JStr y)),
                 (lit ''url'', JStr CUEVANA_PRO_URL)] \<and>
         the (parse_movie_item urljoin (nodes ! i)) \<in>
           set (search_movies urljoin (Returned nodes) limit)"
proof -
  have "\<not> startswith [] (lit ''http'')" by (simp add: startswith_def lit_def)
  then have p: "parse_movie_item urljoin (nodes ! i) =
           Some [(lit ''type'', JStr (lit ''movie'')),
                 (lit ''id'', JStr (ID_PREFIX @ CUEVANA_PRO_URL)),
                 (lit ''name'', JStr title),
                 (lit ''poster'',
                    (case poster_node (nodes ! i) of
                       None \<Rightarrow> JStr []
                     | Some (src, data_src) \<Rightarrow>
                         (case src of
                            Some s \<Rightarrow> JStr s
                          | None \<Rightarrow> (case data_src of Some d \<Rightarrow> JStr d | None \<Rightarrow> JNull)))),
                 (lit ''year'',
                    (case year_node (nodes ! i) of None \<Rightarrow> JStr [] | Some y \<Rightarrow> JStr y)),
                 (lit ''url'', JStr CUEVANA_PRO_URL)]"
    using assms(1,4,5) by (simp add: parse_movie_item_def Let_def)
  from search_movies_member [OF assms(2,3) p] p show ?thesis by simp
qed

theorem search_movies_keeps_item_without_href_witness:
  "parse_movie_item urljoin_path (five_items_no_href ! 2) =
     Some [(lit ''type'', JStr (lit ''movie'')),
           (lit ''id'', JStr (lit ''cuevanap_https://cuevana.pro/'')),
           (lit ''name'', JStr (lit ''Tres'')),
           (lit ''poster'', JStr []),
           (lit ''year'', JStr []),
           (lit ''url'', JStr (lit ''https://cuevana.pro/''))] \<and>
   the (parse_movie_item urljoin_path (five_items_no_href ! 2)) \<in>
     set (search_movies urljoin_path (Returned five_items_no_href) 20) \<and>
   map (\<lambda>movie. map_of movie (lit ''name''))
     (search_movies urljoin_path (Returned five_items_no_href) 20) =
     [Some (JStr (lit ''Uno'')), Some (JStr (lit ''Dos'')), Some (JStr (lit ''Tres'')),
      Some (JStr (lit ''Cuatro'')), Some (JStr (lit ''Cinco''))] \<and>
   map (\<lambda>movie. map_of movie (lit ''name''))
     (search_movies urljoin_path (Returned five_items) 20) =
     [Some (JStr (lit ''Uno'')), Some (JStr (lit ''Dos'')), Some (JStr (lit ''Cuatro'')),
      Some (JStr (lit ''Cinco''))]"
proof -
  have pre: "urljoin_path CUEVANA_PRO_URL [] = Returned CUEVANA_PRO_URL"
    "2 < length five_items_no_href" "int 2 < 20"
    "title_node (five_items_no_href ! 2) = Some (lit ''Tres'')"
    "link_node (five_items_no_href ! 2) = Some None"
    by (simp_all add: urljoin_path_def five_items_no_href_def hrefless_node_def)
  have vals: "poster_node (five_items_no_href ! 2) = None"
    "year_node (five_items_no_href ! 2) = None"
    "ID_PREFIX @ lit ''https://cuevana.pro/'' = lit ''cuevanap_https://cuevana.pro/''"
    "CUEVANA_PRO_URL = lit ''https://cuevana.pro/''"
    by (simp_all add: five_items_no_href_def hrefless_node_def ID_PREFIX_def
        CUEVANA_PRO_URL_def lit_def)
  note th = search_movies_keeps_item_without_href
    [where urljoin = urljoin_path and nodes = five_items_no_href and i = 2 and limit = 20
       and title = "lit ''Tres''", OF pre]
  from th have first: "parse_movie_item urljoin_path (five_items_no_href ! 2) =
     Some [(lit ''type'', JStr (lit ''movie'')),
           (lit ''id'', JStr (lit ''cuevanap_https://cuevana.pro/'')),
           (lit ''name'', JStr (lit ''Tres'')),
           (lit ''poster'', JStr []),
           (lit ''year'', JStr []),
           (lit ''url'', JStr (lit ''https://cuevana.pro/''))]"
    by (simp only: vals option.case)
  from th have second: "the (parse_movie_item urljoin_path (five_items_no_href ! 2)) \<in>
     set (search_movies urljoin_path (Returned five_items_no_href) 20)"
    by (rule conjunct2)
  have third: "map (\<lambda>movie. map_of movie (lit ''name''))
     (search_movies urljoin_path (Returned five_items_no_href) 20) =
     [Some (JStr (lit ''Uno'')), Some (JStr (lit ''Dos'')), Some (JStr (lit ''Tres'')),
      Some (JStr (lit ''Cuatro'')), Some (JStr (lit ''Cinco''))]"
    by (simp add: search_movies_def five_items_no_href_def py_slice_to_def movie_node_def
        hrefless_node_def urljoin_path_def startswith_def parse_movie_item_def Let_def
        CUEVANA_PRO_URL_def lit_def)
  have fourth: "map (\<lambda>movie. map_of movie (lit ''name''))
     (search_movies urljoin_path (Returned five_items) 20) =
     [Some (JStr (lit ''Uno'')), Some (JStr (lit ''Dos'')), Some (JStr (lit ''Cuatro'')),
      Some (JStr (lit ''Cinco''))]"
    by (simp add: search_movies_def five_items_def py_slice_to_def movie_node_def
        untitled_node_def urljoin_path_def startswith_def parse_movie_item_def Let_def
        CUEVANA_PRO_URL_def lit_def)
  from first second third fourth show ?thesis by (intro conjI)
qed

section \<open>Best match\<close>

lemma is_first_best_Cons_same:
  assumes "is_first_best score cs bs i" and "score c \<le> bs"
  shows "is_first_best score (c # cs) bs (Suc i)"
proof -
  have lt: "score c < score (cs ! i)" using assms by (auto simp: is_first_best_def)
  have "score ((c # cs) ! j) \<le> score (cs ! i)" if "j < length (c # cs)" for j
    using that assms(1) lt by (cases j) (auto simp: is_first_best_def)
  moreover have "score ((c # cs) ! j) < score (cs ! i)" if "j < Suc i" for j
    using that assms(1) lt by (cases j) (auto simp: is_first_best_def)
  ultimately show ?thesis using assms(1) by (auto simp: is_first_best_def)
qed

lemma is_first_best_Cons_better:
  assumes "is_first_best score cs (score c) i" and "bs < score c"
  shows "is_first_best score (c # cs) bs (Suc i)"
proof -
  have lt: "score c < score (cs ! i)" using assms by (auto simp: is_first_best_def)
  have "score ((c # cs) ! j) \<le> score (cs ! i)" if "j < length (c # cs)" for j
    using that assms(1) lt by (cases j) (auto simp: is_first_best_def)
  moreover have "score ((c # cs) ! j) < score (cs ! i)" if "j < Suc i" for j
    using that assms(1) lt by (cases j) (auto simp: is_first_best_def)
  ultimately show ?thesis using assms lt by (auto simp: is_first_best_def)
qed

lemma is_first_best_head:
  assumes "\<forall>x\<in>set cs. score x \<le> score c" and "bs < score c"
  shows "is_first_best score (c # cs) bs 0"
proof -
  have "score ((c # cs) ! j) \<le> score c" if "j < length (c # cs)" for j
    using that assms(1) by (cases j) auto
  then show ?thesis using assms(2) by (auto simp: is_first_best_def)
qed

lemma best_match_loop_char:
  "((\<forall>c\<in>set cs. calculate_similarity tbl query c \<le> bs) \<longrightarrow>
      best_match_loop tbl query cs (bm, bs) = (bm, bs)) \<and>
   (\<not> (\<forall>c\<in>set cs. calculate_similarity tbl query c \<le> bs) \<longrightarrow>
      (\<exists>i. is_first_best (calculate_similarity tbl query) cs bs i \<and>
           best_match_loop tbl query cs (bm, bs) =
             (Some (cs ! i), calculate_similarity tbl query (cs ! i))))"
proof (induction cs arbitrary: bm bs)
  case Nil
  show ?case by simp
next
  case (Cons c cs)
  let ?sc = "calculate_similarity tbl query"
  show ?case
  proof (cases "bs < ?sc c")
    case True
    then have step: "best_match_loop tbl query (c # cs) (bm, bs) =
        best_match_loop tbl query cs (Some c, ?sc c)"
      by (simp add: Let_def)
    show ?thesis
    proof (cases "\<forall>x\<in>set cs. ?sc x \<le> ?sc c")
      case all: True
      then have "best_match_loop tbl query cs (Some c, ?sc c) = (Some c, ?sc c)"
        using Cons.IH [of "?sc c" "Some c"] by blast
      moreover have "is_first_best ?sc (c # cs) bs 0"
        using all True by (rule is_first_best_head)
      ultimately have "is_first_best ?sc (c # cs) bs 0 \<and>
          best_match_loop tbl query (c # cs) (bm, bs) = (Some ((c # cs) ! 0), ?sc ((c # cs) ! 0))"
        using step by simp
      then show ?thesis using True by (auto simp: not_le)
    next
      case False
      then obtain i where i: "is_first_best ?sc cs (?sc c) i"
        and r: "best_match_loop tbl query cs (Some c, ?sc c) = (Some (cs ! i), ?sc (cs ! i))"
        using Cons.IH [of "?sc c" "Some c"] by blast
      have "is_first_best ?sc (c # cs) bs (Suc i)"
        using i True by (rule is_first_best_Cons_better)
      moreover have "best_match_loop tbl query (c # cs) (bm, bs) =
          (Some ((c # cs) ! Suc i), ?sc ((c # cs) ! Suc i))"
        using step r by simp
      ultimately show ?thesis using True by (auto simp: not_le)
    qed
  next
    case False
    then have le: "?sc c \<le> bs" by simp
    have step: "best_match_loop tbl query (c # cs) (bm, bs) =
        best_match_loop tbl query cs (bm, bs)"
      using False by (simp add: Let_def)
    show ?thesis
    proof (cases "\<forall>x\<in>set cs. ?sc x \<le> bs")
      case True
      then have "best_match_loop tbl query cs (bm, bs) = (bm, bs)"
        using Cons.IH [of bs bm] by blast
      then show ?thesis using True le step by simp
    next
      case nall: False
      then obtain i where i: "is_first_best ?sc cs bs i"
        and r: "best_match_loop tbl query cs (bm, bs) = (Some (cs ! i), ?sc (cs ! i))"
        using Cons.IH [of bs bm] by blast
      have "is_first_best ?sc (c # cs) bs (Suc i)"
        using i le by (rule is_first_best_Cons_same)
      moreover have "best_match_loop tbl query (c # cs) (bm, bs) =
          (Some ((c # cs) ! Suc i), ?sc ((c # cs) ! Suc i))"
        using step r by simp
      ultimately show ?thesis using nall by auto
    qed
  qed
qed

lemma ratio_tide_diet: "ratio (lit ''tide'') (lit ''diet'') = 1 / 4"
  by code_simp

lemma ratio_diet_tide: "ratio (lit ''diet'') (lit ''tide'') = 1 / 2"
  by code_simp

lemma ratio_tide_tide: "ratio (lit ''tide'') (lit ''tide'') = 1"
  by code_simp

lemma normalize_tide:
  "normalize_text tbl (Some (lit ''tide'')) = lit ''tide''"
  "normalize_text tbl (Some (lit ''TIDE'')) = lit ''tide''"
  "normalize_text tbl (Some (lit ''diet'')) = lit ''diet''"
  by (simp_all add: normalize_text_def unidecode_def py_lower_def lower_cp_def lit_def
      py_strip_def py_isspace_def)

lemma similarity_tide:
  "calculate_similarity tbl (lit ''tide'') (lit ''diet'') = 1 / 4"
  "calculate_similarity tbl (lit ''diet'') (lit ''tide'') = 1 / 2"
  "calculate_similarity tbl (lit ''tide'') (lit ''tide'') = 1"
  "calculate_similarity tbl (lit ''tide'') (lit ''TIDE'') = 1"
proof -
  have ne: "lit ''tide'' \<noteq> []" "lit ''TIDE'' \<noteq> []" "lit ''diet'' \<noteq> []"
    by (simp_all add: lit_def)
  show "calculate_similarity tbl (lit ''tide'') (lit ''diet'') = 1 / 4"
    "calculate_similarity tbl (lit ''diet'') (lit ''tide'') = 1 / 2"
    "calculate_similarity tbl (lit ''tide'') (lit ''tide'') = 1"
    "calculate_similarity tbl (lit ''tide'') (lit ''TIDE'') = 1"
    by (simp_all add: calculate_similarity_def ne normalize_tide ratio_tide_diet
        ratio_diet_tide ratio_tide_tide)
qed

text \<open>
  Claim C2. \<open>find_best_match\<close> returns \<^verbatim>\<open>None\<close> when every candidate's similarity is at
  most the threshold. Otherwise it returns the first candidate whose similarity is the
  maximum over the candidates; that maximum exceeds the threshold, and every earlier
  candidate scores strictly less, so a later candidate that ties the best never replaces
  it. Whatever is returned scores strictly above the threshold, so a candidate at the
  threshold exactly never wins.
\<close>

theorem find_best_match_first_maximum:
  "((\<forall>c\<in>set candidates. calculate_similarity tbl query c \<le> threshold) \<longrightarrow>
      find_best_match tbl query candidates threshold = None) \<and>
   ((\<exists>c\<in>set candidates. threshold < calculate_similarity tbl query c) \<longrightarrow>
      (\<exists>i<length candidates.
         find_best_match tbl query candidates threshold = Some (candidates ! i) \<and>
         threshold < calculate_similarity tbl query (candidates ! i) \<and>
         (\<forall>j<length candidates.
            calculate_similarity tbl query (candidates ! j) \<le>
              calculate_similarity tbl query (candidates ! i)) \<and>
         (\<forall>j<i. calculate_similarity tbl query (candidates ! j) <
              calculate_similarity tbl query (candidates ! i)))) \<and>
   (\<forall>c. find_best_match tbl query candidates threshold = Some c \<longrightarrow>
      threshold < calculate_similarity tbl query c)"
proof -
  let ?sc = "calculate_similarity tbl query"
  note char = best_match_loop_char [of candidates tbl query threshold None]
  have none: "find_best_match tbl query candidates threshold = None"
    if "\<forall>c\<in>set candidates. ?sc c \<le> threshold"
    using that char by (simp add: find_best_match_def)
  have some: "\<exists>i. is_first_best ?sc candidates threshold i \<and>
      find_best_match tbl query candidates threshold = Some (candidates ! i)"
    if "\<exists>c\<in>set candidates. threshold < ?sc c"
  proof -
    from that have ne: "candidates \<noteq> []" by auto
    from that have "\<not> (\<forall>c\<in>set candidates. ?sc c \<le> threshold)" by (auto simp: not_le)
    with char obtain i where "is_first_best ?sc candidates threshold i"
      and "best_match_loop tbl query candidates (None, threshold) =
        (Some (candidates ! i), ?sc (candidates ! i))"
      by auto
    then show ?thesis using ne by (auto simp: find_best_match_def)
  qed
  have win: "threshold < ?sc c"
    if "find_best_match tbl query candidates threshold = Some c" for c
  proof (cases "\<forall>c\<in>set candidates. ?sc c \<le> threshold")
    case True
    with none that show ?thesis by simp
  next
    case False
    then have "\<exists>c\<in>set candidates. threshold < ?sc c" by (auto simp: not_le)
    from some [OF this] that show ?thesis by (auto simp: is_first_best_def)
  qed
  from none some win show ?thesis unfolding is_first_best_def by blast
qed

theorem find_best_match_first_maximum_witness:
  "find_best_match unidecode_latin (lit ''tide'') [lit ''diet'', lit ''tide'', lit ''TIDE''] (4 / 5) =
     Some (lit ''tide'') \<and>
   calculate_similarity unidecode_latin (lit ''tide'') (lit ''TIDE'') =
     calculate_similarity unidecode_latin (lit ''tide'') (lit ''tide'') \<and>
   calculate_similarity unidecode_latin (lit ''tide'') (lit ''diet'') = 1 / 4 \<and>
   find_best_match unidecode_latin (lit ''tide'') [lit ''diet''] (1 / 4) = None"
proof -
  let ?sc = "calculate_similarity unidecode_latin (lit ''tide'')"
  let ?cs = "[lit ''diet'', lit ''tide'', lit ''TIDE'']"
  have "\<exists>c\<in>set ?cs. 4 / 5 < ?sc c" by (simp add: similarity_tide)
  with find_best_match_first_maximum [of ?cs unidecode_latin "lit ''tide''" "4 / 5"]
  obtain i where i: "i < length ?cs"
    and r: "find_best_match unidecode_latin (lit ''tide'') ?cs (4 / 5) = Some (?cs ! i)"
    and above: "4 / 5 < ?sc (?cs ! i)"
    and first: "\<forall>j<i. ?sc (?cs ! j) < ?sc (?cs ! i)"
    by blast
  from i have "i = 0 \<or> i = 1 \<or> i = 2" by auto
  then have "i = 1"
  proof (elim disjE)
    assume "i = 0"
    with above show ?thesis by (simp add: similarity_tide)
  next
    assume "i = 1"
    then show ?thesis .
  next
    assume "i = 2"
    with first have "?sc (?cs ! 1) < ?sc (?cs ! 2)" by (auto dest: spec [of _ 1])
    then show ?thesis by (simp add: similarity_tide)
  qed
  with r have best: "find_best_match unidecode_latin (lit ''tide'') ?cs (4 / 5) =
      Some (lit ''tide'')"
    by simp
  have "\<forall>c\<in>set [lit ''diet'']. ?sc c \<le> 1 / 4" by (simp add: similarity_tide)
  with find_best_match_first_maximum [of "[lit ''diet'']" unidecode_latin "lit ''tide''" "1 / 4"]
  have none: "find_best_match unidecode_latin (lit ''tide'') [lit ''diet''] (1 / 4) = None"
    by blast
  from best none show ?thesis by (simp add: similarity_tide)
qed

section \<open>Similarity\<close>

text \<open>
  Claim C3, symmetry. \<^verbatim>\<open>ratio()\<close> depends on the order of its arguments:
  \<^verbatim>\<open>"tide"\<close> against \<^verbatim>\<open>"diet"\<close> scores 0.25, \<^verbatim>\<open>"diet"\<close> against \<^verbatim>\<open>"tide"\<close> scores 0.5.
\<close>

theorem similarity_not_symmetric_counterexample:
  "calculate_similarity unidecode_latin (lit ''tide'') (lit ''diet'') = 1 / 4 \<and>
   calculate_similarity unidecode_latin (lit ''diet'') (lit ''tide'') = 1 / 2"
  by (simp add: similarity_tide)

lemma block_sizes_simps:
  "block_sizes [] = 0"
  "block_sizes ((i, j, k) # blocks) = k + block_sizes blocks"
  "block_sizes (xs @ ys) = block_sizes xs + block_sizes ys"
  by (simp_all add: block_sizes_def)

lemma block_sizes_insort: "block_sizes (insort x xs) = block_sizes (x # xs)"
  by (induction xs) (auto simp: block_sizes_def)

lemma block_sizes_sort: "block_sizes (sort xs) = block_sizes xs"
proof (induction xs)
  case Nil
  show ?case by simp
next
  case (Cons x xs)
  have "block_sizes (sort (x # xs)) = block_sizes (insort x (sort xs))" by simp
  also have "\<dots> = block_sizes (x # sort xs)" by (rule block_sizes_insort)
  also have "\<dots> = block_sizes (x # xs)" using Cons by (cases x) (simp add: block_sizes_simps)
  finally show ?case .
qed

lemma block_sizes_collapse_adjacent:
  "block_sizes (collapse_adjacent rest (i1, j1, k1) non_adjacent) =
     block_sizes rest + k1 + block_sizes non_adjacent"
proof (induction rest "(i1, j1, k1)" non_adjacent arbitrary: i1 j1 k1
    rule: collapse_adjacent.induct)
  case (1 i1 j1 k1 non_adjacent)
  show ?case by (simp add: block_sizes_simps)
next
  case (2 i2 j2 k2 rest i1 j1 k1 non_adjacent)
  then show ?case by (auto simp: block_sizes_simps)
qed

lemma ratio_matches:
  "ratio a b =
     calculate_ratio (block_sizes (match_loop a b [(0, length a, 0, length b)] []))
       (length a + length b)"
proof -
  have "block_sizes (get_matching_blocks a b) =
      block_sizes (match_loop a b [(0, length a, 0, length b)] [])"
    by (simp add: get_matching_blocks_def Let_def block_sizes_simps
        block_sizes_collapse_adjacent block_sizes_sort)
  then show ?thesis by (simp add: ratio_def block_sizes_def Let_def)
qed

lemma match_loop_bounded:
  assumes "ranges_ok queue"
  shows "block_sizes (match_loop a b queue blocks) \<le> block_sizes blocks + width_a queue \<and>
         block_sizes (match_loop a b queue blocks) \<le> block_sizes blocks + width_b queue"
  using assms
proof (induction a b queue blocks rule: match_loop.induct)
  case (1 a b matching_blocks)
  show ?case by simp
next
  case (2 a b alo ahi blo bhi queue matching_blocks)
  obtain i j k where flm: "find_longest_match a b alo ahi blo bhi = (i, j, k)"
    by (cases "find_longest_match a b alo ahi blo bhi") auto
  from "2.prems" have r: "alo \<le> ahi" "blo \<le> bhi" and rest: "ranges_ok queue"
    by (auto simp: ranges_ok_def)
  from find_longest_match_side_a [OF flm r(1)] find_longest_match_side_b [OF flm r(2)]
  have bnd: "alo \<le> i" "i + k \<le> ahi" "blo \<le> j" "j + k \<le> bhi" by auto
  show ?case
  proof (cases "k = 0")
    case True
    then have "match_loop a b ((alo, ahi, blo, bhi) # queue) matching_blocks =
        match_loop a b queue matching_blocks"
      using flm by simp
    moreover have "block_sizes (match_loop a b queue matching_blocks) \<le>
          block_sizes matching_blocks + width_a queue \<and>
        block_sizes (match_loop a b queue matching_blocks) \<le>
          block_sizes matching_blocks + width_b queue"
      using "2.IH"(2) [of i "(j, k)" j k] flm True rest by simp
    ultimately show ?thesis by (simp add: width_a_def width_b_def)
  next
    case False
    define queue1 where "queue1 = (if alo < i \<and> blo < j then (alo, i, blo, j) # queue else queue)"
    define queue2 where "queue2 =
      (if i + k < ahi \<and> j + k < bhi then (i + k, ahi, j + k, bhi) # queue1 else queue1)"
    have step: "match_loop a b ((alo, ahi, blo, bhi) # queue) matching_blocks =
        match_loop a b queue2 (matching_blocks @ [(i, j, k)])"
      using flm False by (simp add: queue1_def queue2_def Let_def)
    have ok: "ranges_ok queue2"
      using rest by (auto simp: queue1_def queue2_def ranges_ok_def)
    have ih: "block_sizes (match_loop a b queue2 (matching_blocks @ [(i, j, k)])) \<le>
          block_sizes (matching_blocks @ [(i, j, k)]) + width_a queue2 \<and>
        block_sizes (match_loop a b queue2 (matching_blocks @ [(i, j, k)])) \<le>
          block_sizes (matching_blocks @ [(i, j, k)]) + width_b queue2"
      using "2.IH"(1) [of i "(j, k)" j k queue1 queue2] flm False ok
      by (simp add: queue1_def queue2_def)
    have wa: "k + width_a queue2 \<le> width_a ((alo, ahi, blo, bhi) # queue)"
      using bnd by (auto simp: queue1_def queue2_def width_a_def)
    have wb: "k + width_b queue2 \<le> width_b ((alo, ahi, blo, bhi) # queue)"
      using bnd by (auto simp: queue1_def queue2_def width_b_def)
    from ih wa wb show ?thesis unfolding step by (auto simp: block_sizes_simps)
  qed
qed

lemma ratio_range: "0 \<le> ratio a b \<and> ratio a b \<le> 1"
proof -
  let ?m = "block_sizes (match_loop a b [(0, length a, 0, length b)] [])"
  have "ranges_ok [(0, length a, 0, length b)]" by (simp add: ranges_ok_def)
  from match_loop_bounded [OF this, of a b "[]"]
  have "?m \<le> length a" "?m \<le> length b"
    by (simp_all add: block_sizes_simps width_a_def width_b_def)
  then have "2 * ?m \<le> length a + length b" by simp
  then have "2 * real ?m \<le> real (length a + length b)"
    by (metis of_nat_le_iff of_nat_mult of_nat_numeral)
  then show ?thesis
    by (auto simp: ratio_matches calculate_ratio_def divide_le_eq_1)
qed

lemma chain_fold:
  "fold b2j_append (enumerate n xs) m x =
   (if map fst (filter (\<lambda>(i, e). e = x) (enumerate n xs)) = [] then m x
    else Some ((case m x of None \<Rightarrow> [] | Some indices \<Rightarrow> indices) @
               map fst (filter (\<lambda>(i, e). e = x) (enumerate n xs))))"
proof (induction xs arbitrary: n m)
  case Nil
  show ?case by simp
next
  case (Cons y ys)
  define m1 where "m1 = b2j_append (n, y) m"
  have m1: "m1 x = (if x = y then Some ((case m x of None \<Rightarrow> [] | Some indices \<Rightarrow> indices) @ [n])
      else m x)"
    by (simp add: m1_def b2j_append_def)
  have "fold b2j_append (enumerate n (y # ys)) m x = fold b2j_append (enumerate (Suc n) ys) m1 x"
    by (simp add: m1_def)
  also have "\<dots> =
      (if map fst (filter (\<lambda>(i, e). e = x) (enumerate (Suc n) ys)) = [] then m1 x
       else Some ((case m1 x of None \<Rightarrow> [] | Some indices \<Rightarrow> indices) @
               map fst (filter (\<lambda>(i, e). e = x) (enumerate (Suc n) ys))))"
    by (rule Cons.IH)
  also have "\<dots> =
      (if map fst (filter (\<lambda>(i, e). e = x) (enumerate n (y # ys))) = [] then m x
       else Some ((case m x of None \<Rightarrow> [] | Some indices \<Rightarrow> indices) @
               map fst (filter (\<lambda>(i, e). e = x) (enumerate n (y # ys)))))"
    using m1 by (cases "x = y") auto
  finally show ?case .
qed

lemma chain_b_cases: "chain_b b elt = None \<or> chain_b b elt = Some (positions b elt)"
proof -
  let ?f = "fold b2j_append (enumerate 0 b) Map.empty"
  have "?f elt = None \<or> ?f elt = Some (positions b elt)"
    by (simp add: chain_fold positions_def)
  then show ?thesis by (auto simp: chain_b_def Let_def split: option.splits)
qed

lemma set_positions: "set (positions b elt) = {j. j < length b \<and> b ! j = elt}"
proof -
  have "set (positions b elt) = fst ` {p \<in> set (zip [0..<length b] b). snd p = elt}"
    by (auto simp: positions_def enumerate_eq_zip)
  also have "\<dots> = {j. j < length b \<and> b ! j = elt}"
    by (auto simp: set_zip image_iff) force
  finally show ?thesis .
qed

lemma sorted_positions: "sorted (positions b elt)"
proof -
  have "sorted (map fst (enumerate 0 b))" by (simp add: enumerate_eq_zip)
  then show ?thesis unfolding positions_def by (rule sorted_filter)
qed

lemma distinct_positions: "distinct (positions b elt)"
proof -
  have "distinct (map fst (enumerate 0 b))" by (simp add: enumerate_eq_zip)
  then show ?thesis unfolding positions_def by (rule distinct_map_filter)
qed

lemma unpopular_same: "s ! j = s ! r \<Longrightarrow> unpopular s j = unpopular s r"
  by (simp add: unpopular_def)

lemma run_length_popular: "\<not> unpopular s r \<Longrightarrow> run_length s r = 0"
  by (cases r) auto

lemma cell_le_column:
  assumes "prev_ok s r m" and "unpopular s j"
  shows "cell m j \<le> run_length s j"
proof (cases j)
  case 0
  with assms(2) show ?thesis by (simp add: cell_def)
next
  case (Suc j')
  show ?thesis
  proof (cases "m j'")
    case None
    then show ?thesis using assms(2) Suc by (simp add: cell_def)
  next
    case (Some v)
    then have "v \<le> run_length s j'"
      using assms(1) by (cases r) (auto simp: prev_ok_def row_entries_def)
    then show ?thesis using assms(2) Suc Some by (simp add: cell_def)
  qed
qed

lemma cell_le_row:
  assumes "prev_ok s r m" and "unpopular s r"
  shows "cell m j \<le> run_length s r"
proof (cases r)
  case 0
  with assms show ?thesis by (simp add: prev_ok_def cell_def)
next
  case (Suc r')
  have "(case m (j - 1) of None \<Rightarrow> 0 | Some v \<Rightarrow> v) \<le> run_length s r'"
    using assms(1) Suc by (auto simp: prev_ok_def row_entries_def split: option.splits)
  then show ?thesis using assms(2) Suc by (auto simp: cell_def)
qed

lemma cell_diagonal:
  assumes "prev_ok s r m" and "unpopular s r"
  shows "cell m r = run_length s r"
proof (cases r)
  case 0
  with assms show ?thesis by (simp add: cell_def)
next
  case (Suc r')
  show ?thesis
  proof (cases "unpopular s r'")
    case True
    then have "m r' = Some (run_length s r')"
      using assms(1) Suc by (simp add: prev_ok_def)
    then show ?thesis using assms(2) Suc by (simp add: cell_def)
  next
    case False
    then have z: "run_length s r' = 0" by (rule run_length_popular)
    have "m r' = None"
    proof (cases "m r'")
      case None
      then show ?thesis .
    next
      case (Some v)
      then have "1 \<le> v \<and> v \<le> run_length s r'"
        using assms(1) Suc by (auto simp: prev_ok_def row_entries_def)
      with z show ?thesis by simp
    qed
    then show ?thesis using assms(2) Suc z by (simp add: cell_def)
  qed
qed


lemma flm_row_step:
  assumes "j < bhi"
  shows "flm_row 0 bhi r m (j # js) ((bi, bj, bs), new) =
     flm_row 0 bhi r m js
       ((if bs < cell m j then (r + 1 - cell m j, j + 1 - cell m j, cell m j) else (bi, bj, bs)),
        new(j \<mapsto> cell m j))"
  using assms by (simp add: cell_def Let_def)

lemma diag_row:
  assumes r: "r < length s" and prev: "prev_ok s r m" and un: "unpopular s r"
    and js: "sorted js" "distinct js" "\<forall>j\<in>set js. j < length s \<and> s ! j = s ! r"
    and best: "bi = bj" "\<forall>r'<r. run_length s r' \<le> bs"
    and new: "row_entries s r new"
    and pending: "r \<in> set js \<or> (run_length s r \<le> bs \<and> new r = Some (run_length s r))"
  shows "\<exists>d k new'. flm_row 0 (length s) r m js ((bi, bj, bs), new) = ((d, d, k), new') \<and>
           (\<forall>r'<r. run_length s r' \<le> k) \<and> row_entries s r new' \<and>
           run_length s r \<le> k \<and> new' r = Some (run_length s r)"
  using js best new pending
proof (induction js arbitrary: bi bj bs new)
  case Nil
  from Nil.prems(7) have "run_length s r \<le> bs \<and> new r = Some (run_length s r)" by simp
  with Nil.prems(4,5,6) show ?case by simp
next
  case (Cons j js)
  from Cons.prems(3) have j: "j < length s" "s ! j = s ! r" by simp_all
  then have uj: "unpopular s j" using un unpopular_same [of s j r] by simp
  define k where "k = cell m j"
  have k1: "1 \<le> k" by (simp add: k_def cell_def)
  have kc: "k \<le> run_length s j" unfolding k_def using prev uj by (rule cell_le_column)
  have kr: "k \<le> run_length s r" unfolding k_def using prev un by (rule cell_le_row)
  have tail: "sorted js" "distinct js" "\<forall>x\<in>set js. x < length s \<and> s ! x = s ! r"
    using Cons.prems(1,2,3) by simp_all
  have new1: "row_entries s r (new(j \<mapsto> k))"
    unfolding row_entries_def
  proof (intro allI impI)
    fix x v
    assume "(new(j \<mapsto> k)) x = Some v"
    then have "(x = j \<and> v = k) \<or> new x = Some v" by (simp split: if_splits)
    then show "x < length s \<and> 1 \<le> v \<and> v \<le> run_length s x \<and> v \<le> run_length s r"
    proof
      assume "x = j \<and> v = k"
      with j(1) k1 kc kr show ?thesis by simp
    next
      assume "new x = Some v"
      with Cons.prems(6) show ?thesis unfolding row_entries_def by blast
    qed
  qed
  have keep: "j = r" if lt: "bs < k"
  proof (rule ccontr)
    assume ne: "j \<noteq> r"
    show False
    proof (cases "j < r")
      case True
      with Cons.prems(5) have "run_length s j \<le> bs" by blast
      with kc lt show False by simp
    next
      case False
      with ne have gt: "r < j" by simp
      have "r \<notin> set js"
      proof
        assume "r \<in> set js"
        with Cons.prems(1) have "j \<le> r" by simp
        with gt show False by simp
      qed
      with ne Cons.prems(7) have "run_length s r \<le> bs" by simp
      with kr lt show False by simp
    qed
  qed
  show ?case
  proof (cases "bs < k")
    case True
    then have jr: "j = r" by (rule keep)
    have step: "flm_row 0 (length s) r m (j # js) ((bi, bj, bs), new) =
        flm_row 0 (length s) r m js ((r + 1 - k, r + 1 - k, k), new(j \<mapsto> k))"
      using flm_row_step [OF j(1), of r m js bi bj bs new] True jr by (simp add: k_def)
    have krun: "k = run_length s r"
      unfolding k_def jr using prev un by (rule cell_diagonal)
    have rows1: "\<forall>r'<r. run_length s r' \<le> k"
    proof (intro allI impI)
      fix r'
      assume "r' < r"
      with Cons.prems(5) have "run_length s r' \<le> bs" by blast
      with True show "run_length s r' \<le> k" by simp
    qed
    have pending1: "r \<in> set js \<or>
        (run_length s r \<le> k \<and> (new(j \<mapsto> k)) r = Some (run_length s r))"
      using krun jr by simp
    from Cons.IH [OF tail refl rows1 new1 pending1]
    show ?thesis unfolding step .
  next
    case False
    have step: "flm_row 0 (length s) r m (j # js) ((bi, bj, bs), new) =
        flm_row 0 (length s) r m js ((bi, bj, bs), new(j \<mapsto> k))"
      using flm_row_step [OF j(1), of r m js bi bj bs new] False by (simp add: k_def)
    have pending1: "r \<in> set js \<or>
        (run_length s r \<le> bs \<and> (new(j \<mapsto> k)) r = Some (run_length s r))"
    proof (cases "j = r")
      case True
      then have "k = run_length s r"
        unfolding k_def using cell_diagonal [OF prev un] by simp
      with False True show ?thesis by simp
    next
      case ne: False
      show ?thesis
      proof (cases "r \<in> set js")
        case True
        then show ?thesis by simp
      next
        case nin: False
        with ne Cons.prems(7) have "run_length s r \<le> bs" "new r = Some (run_length s r)"
          by simp_all
        with ne show ?thesis by simp
      qed
    qed
    from Cons.IH [OF tail Cons.prems(4,5) new1 pending1]
    show ?thesis unfolding step .
  qed
qed


lemma diag_step:
  assumes r: "r < length s" and inv: "diag_inv s r st"
  shows "diag_inv s (Suc r)
     ((\<lambda>(best, j2len).
         flm_row 0 (length s) r j2len (case chain_b s (s ! r) of None \<Rightarrow> [] | Some js \<Rightarrow> js)
           (best, Map.empty)) st)"
proof -
  obtain bi bj bs m where st: "st = ((bi, bj, bs), m)" by (cases st) auto
  from inv have d: "bi = bj" and rows: "\<forall>r'<r. run_length s r' \<le> bs" and prev: "prev_ok s r m"
    by (simp_all add: diag_inv_def st)
  show ?thesis
  proof (cases "unpopular s r")
    case True
    then have L: "chain_b s (s ! r) = Some (positions s (s ! r))"
      using chain_b_cases [of s "s ! r"] by (auto simp: unpopular_def)
    have js: "sorted (positions s (s ! r))" "distinct (positions s (s ! r))"
      "\<forall>j\<in>set (positions s (s ! r)). j < length s \<and> s ! j = s ! r"
      by (simp_all add: sorted_positions distinct_positions set_positions)
    have e: "row_entries s r Map.empty" by (simp add: row_entries_def)
    have p: "r \<in> set (positions s (s ! r)) \<or>
        (run_length s r \<le> bs \<and> Map.empty r = Some (run_length s r))"
      using r by (simp add: set_positions)
    from diag_row [OF r prev True js d rows e p]
    obtain d k new' where res:
      "flm_row 0 (length s) r m (positions s (s ! r)) ((bi, bj, bs), Map.empty) = ((d, d, k), new')"
      and rows': "\<forall>r'<r. run_length s r' \<le> k" and ent: "row_entries s r new'"
      and top: "run_length s r \<le> k" and dg: "new' r = Some (run_length s r)"
      by blast
    have "\<forall>r'<Suc r. run_length s r' \<le> k"
      using rows' top by (auto simp: less_Suc_eq)
    then have "diag_inv s (Suc r) ((d, d, k), new')"
      using ent dg by (simp add: diag_inv_def prev_ok_def)
    then show ?thesis by (simp add: st L res)
  next
    case False
    then have L: "chain_b s (s ! r) = None" by (simp add: unpopular_def)
    have z: "run_length s r = 0" using False by (rule run_length_popular)
    have "\<forall>r'<Suc r. run_length s r' \<le> bs"
      using rows z by (auto simp: less_Suc_eq)
    then have "diag_inv s (Suc r) ((bi, bj, bs), Map.empty)"
      using d False by (simp add: diag_inv_def prev_ok_def row_entries_def)
    then show ?thesis by (simp add: st L)
  qed
qed

lemma flm_rows_diagonal:
  "\<exists>d k m. flm_rows s (chain_b s) 0 (length s) 0 (length s) = ((d, d, k), m) \<and> d + k \<le> length s"
proof -
  have "diag_inv s (length s) (flm_rows s (chain_b s) 0 (length s) 0 (length s))"
    unfolding flm_rows_def
  proof (rule fold_upt_invariant [where P = "diag_inv s"])
    show "0 \<le> length s" by simp
    show "diag_inv s 0 ((0, 0, 0), Map.empty)" by (simp add: diag_inv_def prev_ok_def)
  next
    fix i st
    assume "i < length s" and "diag_inv s i st"
    then show "diag_inv s (Suc i)
      ((\<lambda>(best, j2len).
         flm_row 0 (length s) i j2len (case chain_b s (s ! i) of None \<Rightarrow> [] | Some js \<Rightarrow> js)
           (best, Map.empty)) st)"
      by (rule diag_step)
  qed
  moreover have "side_a 0 (length s) (flm_rows s (chain_b s) 0 (length s) 0 (length s))"
    by (rule flm_rows_side_a) simp
  ultimately show ?thesis
    by (cases "flm_rows s (chain_b s) 0 (length s) 0 (length s)")
       (auto simp: diag_inv_def side_a_def)
qed

lemma extend_left_diagonal: "extend_left False s s 0 0 (d, d, k) = (0, 0, d + k)"
proof (induction d arbitrary: k)
  case 0
  show ?case by (simp add: extend_left.simps)
next
  case (Suc d)
  have "extend_left False s s 0 0 (Suc d, Suc d, k) = extend_left False s s 0 0 (d, d, k + 1)"
    by (subst extend_left.simps) (simp add: isbjunk_def)
  then show ?case by (simp add: Suc.IH)
qed

lemma extend_right_diagonal:
  "k \<le> n \<Longrightarrow> extend_right False s s n n (0, 0, k) = (0, 0, n)"
proof (induction "n - k" arbitrary: k)
  case 0
  then have "k = n" by simp
  then show ?case by (simp add: extend_right.simps)
next
  case (Suc x)
  then have lt: "k < n" and x: "x = n - (k + 1)" and le: "k + 1 \<le> n" by simp_all
  have "extend_right False s s n n (0, 0, k) = extend_right False s s n n (0, 0, k + 1)"
    using lt by (subst extend_right.simps) (simp add: isbjunk_def)
  also have "\<dots> = (0, 0, n)" using x le by (rule Suc.hyps(1))
  finally show ?case .
qed

lemma extend_junk_idle:
  "extend_left True a b alo blo st = st" "extend_right True a b ahi bhi st = st"
  by (cases st; simp add: extend_left.simps extend_right.simps isbjunk_def)+

lemma find_longest_match_self:
  "find_longest_match s s 0 (length s) 0 (length s) = (0, 0, length s)"
proof -
  obtain d k m where rows: "flm_rows s (chain_b s) 0 (length s) 0 (length s) = ((d, d, k), m)"
    and le: "d + k \<le> length s"
    using flm_rows_diagonal [of s] by blast
  show ?thesis
    by (simp add: find_longest_match_def rows extend_junk_idle extend_left_diagonal
        extend_right_diagonal [OF le])
qed

lemma match_loop_self:
  assumes "s \<noteq> []"
  shows "match_loop s s [(0, length s, 0, length s)] [] = [(0, 0, length s)]"
  using assms by (simp add: find_longest_match_self)

lemma ratio_self: "ratio s s = 1"
proof (cases "s = []")
  case True
  then show ?thesis by (simp add: ratio_matches calculate_ratio_def)
next
  case False
  have "block_sizes (match_loop s s [(0, length s, 0, length s)] []) = length s"
    unfolding match_loop_self [OF False] by (simp add: block_sizes_simps)
  then show ?thesis
    unfolding ratio_matches using False by (simp add: calculate_ratio_def)
qed

lemma calculate_similarity_range:
  "0 \<le> calculate_similarity tbl a b \<and> calculate_similarity tbl a b \<le> 1"
  using ratio_range by (simp add: calculate_similarity_def)

text \<open>
  Claim C3, as the code has it. For every non-empty string \<open>a\<close>,
  \<open>calculate_similarity a a\<close> is 1; when either argument is the empty string the result
  is 0; every result lies between 0 and 1. Symmetry is not among the properties: the
  result depends on the order of the two arguments.
\<close>

theorem calculate_similarity_properties:
  "(a \<noteq> [] \<longrightarrow> calculate_similarity tbl a a = 1) \<and>
   calculate_similarity tbl [] x = 0 \<and>
   calculate_similarity tbl x [] = 0 \<and>
   0 \<le> calculate_similarity tbl a b \<and> calculate_similarity tbl a b \<le> 1"
  using calculate_similarity_range [of tbl a b]
  by (simp add: calculate_similarity_def ratio_self)

theorem calculate_similarity_properties_witness:
  "lit ''El Ni'' @ [241] @ lit ''o'' \<noteq> [] \<and>
   calculate_similarity unidecode_latin (lit ''El Ni'' @ [241] @ lit ''o'')
     (lit ''El Ni'' @ [241] @ lit ''o'') = 1 \<and>
   calculate_similarity unidecode_latin [] (lit ''tide'') = 0 \<and>
   0 \<le> calculate_similarity unidecode_latin (lit ''tide'') (lit ''diet'') \<and>
   calculate_similarity unidecode_latin (lit ''tide'') (lit ''diet'') \<le> 1"
  using calculate_similarity_properties
    [where a = "lit ''El Ni'' @ [241] @ lit ''o''" and tbl = unidecode_latin
      and x = "lit ''tide''" and b = "lit ''El Ni'' @ [241] @ lit ''o''"]
    calculate_similarity_properties
    [where a = "lit ''tide''" and tbl = unidecode_latin and x = "lit ''tide''"
      and b = "lit ''diet''"]
  by (simp add: lit_def)

end
